theory Spec2Isabelle
  imports Main
begin

section \<open>Tokens\<close>

text \<open>
  \<^verbatim>\<open>Token = namedtuple('Token', ['type', 'value', 'line_number', 'column'])\<close>.
  The kind of a token is a Python string (the name of the regular-expression group that
  matched), so it is a string here as well. Source text is a list of characters, each
  standing for one code point below 256.
\<close>

datatype token = Token (ttype: string) (tvalue: string) (line_number: int) (column: int)

section \<open>Lexer\<close>

subsection \<open>Character classes of the regular expressions\<close>

text \<open>\<^verbatim>\<open>[A-Za-z]\<close>, \<^verbatim>\<open>\d\<close>, \<^verbatim>\<open>[A-Za-z0-9]\<close>, \<^verbatim>\<open>[+-]\<close>, \<^verbatim>\<open>[+\-*/]\<close> and
  \<^verbatim>\<open>\s\<close>. For a \<^verbatim>\<open>str\<close> pattern \<^verbatim>\<open>\s\<close> is Unicode white space; below code point 256
  that is 9 to 13, 28 to 32, 133 and 160. Below 256 the only decimal digits are 0 to 9.\<close>

definition is_letter :: "char \<Rightarrow> bool" where
  "is_letter c = (let n = (of_char c :: nat) in (65 \<le> n \<and> n \<le> 90) \<or> (97 \<le> n \<and> n \<le> 122))"

definition is_digit :: "char \<Rightarrow> bool" where
  "is_digit c = (let n = (of_char c :: nat) in 48 \<le> n \<and> n \<le> 57)"

definition is_alnum :: "char \<Rightarrow> bool" where
  "is_alnum c = (is_letter c \<or> is_digit c)"

definition is_sign :: "char \<Rightarrow> bool" where
  "is_sign c = (c = CHR ''+'' \<or> c = CHR ''-'')"

definition is_opchar :: "char \<Rightarrow> bool" where
  "is_opchar c = (c = CHR ''+'' \<or> c = CHR ''-'' \<or> c = CHR ''*'' \<or> c = CHR ''/'')"

definition is_space :: "char \<Rightarrow> bool" where
  "is_space c = (let n = (of_char c :: nat) in
     (9 \<le> n \<and> n \<le> 13) \<or> (28 \<le> n \<and> n \<le> 32) \<or> n = 133 \<or> n = 160)"

definition dquote :: char where
  "dquote = CHR 0x22"

subsection \<open>One matcher per entry of \<^verbatim>\<open>token_specification\<close>\<close>

text \<open>A matcher is given the text from the scan position on and returns the length of
  the text its pattern matches there, or \<open>None\<close> when the pattern does not match.
  Every quantifier of the patterns is greedy, and in none of them can giving characters
  back make a failed match succeed, so the greedy length is the length Python finds.\<close>

type_synonym matcher = "string \<Rightarrow> nat option"

text \<open>A literal pattern such as \<^verbatim>\<open>BEGIN\<close> or \<^verbatim>\<open>:=\<close>.\<close>

definition lit :: "string \<Rightarrow> matcher" where
  "lit w s = (if take (length w) s = w then Some (length w) else None)"

text \<open>\<^verbatim>\<open>[A-Za-z][A-Za-z0-9]*\<close>\<close>

definition re_ID :: matcher where
  "re_ID s = (case s of [] \<Rightarrow> None
     | c # cs \<Rightarrow> if is_letter c then Some (1 + length (takeWhile is_alnum cs)) else None)"

text \<open>\<^verbatim>\<open>[+-]?\<close>: the number of characters an optional sign takes.\<close>

definition opt_sign :: "string \<Rightarrow> nat" where
  "opt_sign s = (case s of [] \<Rightarrow> 0 | c # cs \<Rightarrow> if is_sign c then 1 else 0)"

text \<open>\<^verbatim>\<open>([Ee][+-]?\d+)?\<close>: the number of characters the optional exponent takes.\<close>

definition opt_exponent :: "string \<Rightarrow> nat" where
  "opt_exponent s = (case s of [] \<Rightarrow> 0
     | c # cs \<Rightarrow>
         if c = CHR ''E'' \<or> c = CHR ''e'' then
           (let sg = opt_sign cs; d = length (takeWhile is_digit (drop sg cs))
            in if d = 0 then 0 else 1 + sg + d)
         else 0)"

text \<open>\<^verbatim>\<open>[+-]?\d+\.\d+([Ee][+-]?\d+)?\<close>\<close>

definition re_FLOAT :: matcher where
  "re_FLOAT s =
     (let sg = opt_sign s;
          s1 = drop sg s;
          d1 = length (takeWhile is_digit s1)
      in if d1 = 0 then None
         else (case drop d1 s1 of
                 [] \<Rightarrow> None
               | c # s3 \<Rightarrow>
                   if c = CHR ''.'' then
                     (let d2 = length (takeWhile is_digit s3)
                      in if d2 = 0 then None
                         else Some (sg + d1 + 1 + d2 + opt_exponent (drop d2 s3)))
                   else None))"

text \<open>\<^verbatim>\<open>[+-]?\d+\<close>\<close>

definition re_INT :: matcher where
  "re_INT s =
     (let sg = opt_sign s; d = length (takeWhile is_digit (drop sg s))
      in if d = 0 then None else Some (sg + d))"

text \<open>\<^verbatim>\<open>"[^"]*"\<close>: an opening quote, every character up to the next quote, and that
  quote. Without a closing quote the pattern does not match.\<close>

definition re_STRING_LITERAL :: matcher where
  "re_STRING_LITERAL s = (case s of [] \<Rightarrow> None
     | c # cs \<Rightarrow>
         if c = dquote then
           (let body = takeWhile (\<lambda>x. x \<noteq> dquote) cs
            in if length body < length cs then Some (length body + 2) else None)
         else None)"

text \<open>\<^verbatim>\<open>[+\-*/]\s+\<close>: the operator character and the white space after it.\<close>

definition re_OPERATOR :: matcher where
  "re_OPERATOR s = (case s of [] \<Rightarrow> None
     | c # cs \<Rightarrow>
         if is_opchar c then
           (let w = length (takeWhile is_space cs) in if w = 0 then None else Some (1 + w))
         else None)"

text \<open>\<^verbatim>\<open>\s+\<close>\<close>

definition re_WHITESPACE :: matcher where
  "re_WHITESPACE s =
     (let w = length (takeWhile is_space s) in if w = 0 then None else Some w)"

definition keyword_names :: "string list" where
  "keyword_names = [''BEGIN'', ''END'', ''PRINT'', ''FOR'', ''TO'', ''INTEGER'', ''REAL'', ''STRING'']"

definition token_specification :: "(string \<times> matcher) list" where
  "token_specification =
     map (\<lambda>k. (k, lit k)) keyword_names @
     [(''ASSIGN'', lit '':=''),
      (''COMMA'', lit '',''),
      (''ID'', re_ID),
      (''FLOAT'', re_FLOAT),
      (''INT'', re_INT),
      (''STRING_LITERAL'', re_STRING_LITERAL),
      (''OPERATOR'', re_OPERATOR),
      (''WHITESPACE'', re_WHITESPACE)]"

text \<open>\<^verbatim>\<open>token_pattern\<close> joins the groups with \<^verbatim>\<open>|\<close>: at a position the alternatives are
  tried from left to right and the first one that matches is the match; its group is the
  only one of \<^verbatim>\<open>groupdict()\<close> that is not \<^verbatim>\<open>None\<close>.\<close>

fun first_match :: "(string \<times> matcher) list \<Rightarrow> string \<Rightarrow> (string \<times> nat) option" where
  "first_match [] s = None"
| "first_match ((name, m) # rest) s =
     (case m s of Some n \<Rightarrow> Some (name, n) | None \<Rightarrow> first_match rest s)"

definition token_pattern :: "string \<Rightarrow> (string \<times> nat) option" where
  "token_pattern s = first_match token_specification s"

text \<open>No alternative matches the empty text, so a match always moves the scan on.\<close>

definition positive :: "matcher \<Rightarrow> bool" where
  "positive m = (\<forall>s j. m s = Some j \<longrightarrow> 0 < j)"

lemma positive_lit: "w \<noteq> [] \<Longrightarrow> positive (lit w)"
  by (auto simp: positive_def lit_def split: if_splits)

lemma positive_re_ID: "positive re_ID"
  by (auto simp: positive_def re_ID_def split: list.splits if_splits)

lemma positive_re_FLOAT: "positive re_FLOAT"
  by (auto simp: positive_def re_FLOAT_def Let_def split: list.splits if_splits)

lemma positive_re_INT: "positive re_INT"
  by (auto simp: positive_def re_INT_def Let_def split: if_splits)

lemma positive_re_STRING_LITERAL: "positive re_STRING_LITERAL"
  by (auto simp: positive_def re_STRING_LITERAL_def Let_def split: list.splits if_splits)

lemma positive_re_OPERATOR: "positive re_OPERATOR"
  by (auto simp: positive_def re_OPERATOR_def Let_def split: list.splits if_splits)

lemma positive_re_WHITESPACE: "positive re_WHITESPACE"
  by (auto simp: positive_def re_WHITESPACE_def Let_def split: if_splits)

lemma positive_token_specification: "\<forall>(k, m) \<in> set token_specification. positive m"
  by (simp add: token_specification_def keyword_names_def positive_lit positive_re_ID
      positive_re_FLOAT positive_re_INT positive_re_STRING_LITERAL positive_re_OPERATOR
      positive_re_WHITESPACE)

lemma first_match_positive:
  "first_match sp s = Some (name, n) \<Longrightarrow> \<forall>(k, m) \<in> set sp. positive m \<Longrightarrow> 0 < n"
  by (induction sp s rule: first_match.induct) (auto simp: positive_def split: option.splits)

lemma token_pattern_positive: "token_pattern s = Some (name, n) \<Longrightarrow> 0 < n"
  unfolding token_pattern_def
  using first_match_positive positive_token_specification by blast

subsection \<open>The generator \<^verbatim>\<open>lexer\<close>\<close>

text \<open>\<^verbatim>\<open>re.finditer\<close> looks for a match at the current position and, where no alternative
  matches, moves one character on; after a match it goes on behind the matched text.
  \<open>lexer_loop\<close> is the body of the \<^verbatim>\<open>for match in ...\<close> loop with the two counters as
  arguments: a match that is not white space yields a token with the counters as they
  are, and after every match, white space included, \<^verbatim>\<open>line_number\<close> goes up by one and
  \<^verbatim>\<open>column\<close> is set back to 1 (the \<^verbatim>\<open>column += len(value)\<close> in between is overwritten
  before the next token is yielded, since one match fills one group only).\<close>

function lexer_loop :: "int \<Rightarrow> int \<Rightarrow> string \<Rightarrow> token list" where
  "lexer_loop ln col [] = []"
| "lexer_loop ln col (c # cs) =
     (case token_pattern (c # cs) of
        None \<Rightarrow> lexer_loop ln col cs
      | Some (name, n) \<Rightarrow>
          (if name \<noteq> ''WHITESPACE'' then [Token name (take n (c # cs)) ln col] else [])
          @ lexer_loop (ln + 1) 1 (drop n (c # cs)))"
  by pat_completeness auto
termination
  by (relation "measure (\<lambda>(ln, col, s). length s)")
     (auto dest: token_pattern_positive)

definition lexer :: "string \<Rightarrow> token list" where
  "lexer input_code = lexer_loop 1 1 input_code"

section \<open>Parser\<close>

subsection \<open>Trees, parser state, exceptions\<close>

text \<open>A \<^verbatim>\<open>Node\<close> has a type, a list of children and a value. The parser puts three
  kinds of object into a list of children: nodes, tokens (\<^verbatim>\<open>Node('Value', [cur_token])\<close>)
  and \<^verbatim>\<open>None\<close> (the current token at the end of input, or the missing expression of an
  assignment without \<^verbatim>\<open>:=\<close>).\<close>

datatype ast =
    Node (ntype: string) (children: "ast list") (nvalue: "string option")
  | Tok token
  | PyNone

text \<open>The fields of \<^verbatim>\<open>Parser\<close>. The generator \<^verbatim>\<open>self.lexer\<close> is the list of the tokens
  it has not yielded yet.\<close>

record parser =
  tokens_left :: "token list"
  current_token :: "token option"
  panic_mode :: bool

datatype error =
    StopIteration
  | SyntaxError string
  | AttributeError
  | TypeError

text \<open>\<^verbatim>\<open>self.current_token = next(self.lexer, None)\<close>\<close>

definition next_token :: "parser \<Rightarrow> parser" where
  "next_token st =
     (case tokens_left st of
        [] \<Rightarrow> st\<lparr>current_token := None\<rparr>
      | t # ts \<Rightarrow> st\<lparr>tokens_left := ts, current_token := Some t\<rparr>)"

text \<open>The skip loops
  \<^verbatim>\<open>while self.current_token and <cond on self.current_token.type>: self.current_token = next(self.lexer, None)\<close>
  of \<^verbatim>\<open>consume\<close>, \<^verbatim>\<open>program\<close>, \<^verbatim>\<open>statement\<close> and \<^verbatim>\<open>for_loop\<close>, on the current token
  and the tokens left.\<close>

fun skip_loop :: "(string \<Rightarrow> bool) \<Rightarrow> token option \<Rightarrow> token list \<Rightarrow> token option \<times> token list" where
  "skip_loop cond None ts = (None, ts)"
| "skip_loop cond (Some t) [] = (if cond (ttype t) then (None, []) else (Some t, []))"
| "skip_loop cond (Some t) (x # xs) =
     (if cond (ttype t) then skip_loop cond (Some x) xs else (Some t, x # xs))"

definition skip_while :: "(string \<Rightarrow> bool) \<Rightarrow> parser \<Rightarrow> parser" where
  "skip_while cond st =
     (case skip_loop cond (current_token st) (tokens_left st) of
        (cur, ts) \<Rightarrow> st\<lparr>tokens_left := ts, current_token := cur\<rparr>)"

subsection \<open>\<^verbatim>\<open>consume\<close>\<close>

text \<open>The \<^verbatim>\<open>print\<close> calls of the parser write diagnostics to the standard output and
  change neither the parser nor the tree; they are left out. The message of a
  \<^verbatim>\<open>SyntaxError\<close> is kept; in \<^verbatim>\<open>consume\<close> its line number is the local variable
  \<^verbatim>\<open>line_number\<close>, which is 1 on that path.\<close>

definition squote :: char where
  "squote = CHR 0x27"

definition consume :: "string \<Rightarrow> parser \<Rightarrow> error + parser" where
  "consume expected_type st =
     (if panic_mode st then
        (let st1 = skip_while (\<lambda>ty. ty \<noteq> expected_type) st in
         case current_token st1 of
           Some t \<Rightarrow>
             if ttype t = expected_type then Inr (next_token (st1\<lparr>panic_mode := False\<rparr>))
             else Inr (next_token st1)
         | None \<Rightarrow> Inr (next_token st1))
      else
        (case current_token st of
           Some t \<Rightarrow>
             if ttype t = expected_type then Inr (next_token st)
             else Inr (next_token (st\<lparr>panic_mode := True\<rparr>))
         | None \<Rightarrow>
             if expected_type = ''END'' then Inr st
             else Inl (SyntaxError (''Unexpected end of input at line 1. Expected ''
                         @ [squote] @ expected_type @ [squote] @ ''.''))))"

subsection \<open>\<^verbatim>\<open>term\<close> and \<^verbatim>\<open>expression\<close>\<close>

definition term_starts :: "string list" where
  "term_starts = [''ID'', ''INT'', ''FLOAT'', ''STRING_LITERAL'']"

text \<open>Reading \<^verbatim>\<open>self.current_token.type\<close> when the current token is \<^verbatim>\<open>None\<close> raises
  \<^verbatim>\<open>AttributeError\<close>.\<close>

definition term_p :: "parser \<Rightarrow> error + ast \<times> parser" where
  "term_p st =
     (case current_token st of
        None \<Rightarrow> Inl AttributeError
      | Some cur_token \<Rightarrow>
          if ttype cur_token \<in> set term_starts then
            (case consume (ttype cur_token) st of
               Inl e \<Rightarrow> Inl e
             | Inr st1 \<Rightarrow> Inr (Node ''Value'' [Tok cur_token] None, st1))
          else Inl (SyntaxError (''Unexpected token: '' @ ttype cur_token)))"

text \<open>The loop of \<^verbatim>\<open>expression\<close> is entered when the type of the current token is one of
  the strings \<^verbatim>\<open>'+'\<close>, \<^verbatim>\<open>'-'\<close>, \<^verbatim>\<open>'*'\<close>, \<^verbatim>\<open>'/'\<close>. Its body either returns the recovery
  node, or raises, or reaches its last statement
  \<^verbatim>\<open>left_term = Token('ID', value=...)\<close>, which raises \<^verbatim>\<open>TypeError\<close> since \<^verbatim>\<open>Token\<close> has
  four fields without defaults (the operands of the f-string are read without error
  before: \<^verbatim>\<open>left_term\<close> and \<^verbatim>\<open>right_term\<close> are nodes, \<^verbatim>\<open>operator\<close> is a token). So the
  body never runs a second time.\<close>

definition expression :: "parser \<Rightarrow> error + ast \<times> parser" where
  "expression st =
     (case term_p st of
        Inl e \<Rightarrow> Inl e
      | Inr (left_term, st1) \<Rightarrow>
          (case current_token st1 of
             None \<Rightarrow> Inr (left_term, st1)
           | Some operator \<Rightarrow>
               if \<not> panic_mode st1 \<and> ttype operator \<in> set [''+'', ''-'', ''*'', ''/''] then
                 (case consume ''OPERATOR'' st1 of
                    Inl e \<Rightarrow> Inl e
                  | Inr st2 \<Rightarrow>
                      (case current_token st2 of
                         None \<Rightarrow> Inl AttributeError
                       | Some t2 \<Rightarrow>
                           if ttype t2 \<notin> set term_starts then
                             Inr (Node ''ErrorRecoveryExpression'' [] None,
                                  st2\<lparr>panic_mode := True\<rparr>)
                           else
                             (case term_p st2 of
                                Inl e \<Rightarrow> Inl e
                              | Inr (right_term, st3) \<Rightarrow> Inl TypeError)))
               else Inr (left_term, st1)))"

subsection \<open>Progress of \<^verbatim>\<open>consume\<close>, \<^verbatim>\<open>term\<close> and \<^verbatim>\<open>expression\<close>\<close>

text \<open>The number of tokens not yet consumed: the current token, if there is one, and the
  tokens the lexer has not yielded.\<close>

fun pending :: "token option \<Rightarrow> nat" where
  "pending None = 0"
| "pending (Some t) = 1"

definition remaining :: "parser \<Rightarrow> nat" where
  "remaining st = pending (current_token st) + length (tokens_left st)"

lemma remaining_next_token_le: "remaining (next_token st) \<le> remaining st"
  by (simp add: remaining_def next_token_def split: list.splits option.splits)

lemma remaining_next_token_less:
  "current_token st \<noteq> None \<Longrightarrow> remaining (next_token st) < remaining st"
  by (auto simp: remaining_def next_token_def split: list.splits option.splits)

lemma remaining_panic_update [simp]: "remaining (st\<lparr>panic_mode := b\<rparr>) = remaining st"
  by (simp add: remaining_def)

lemma current_token_panic_update: "current_token (st\<lparr>panic_mode := b\<rparr>) = current_token st"
  by simp

lemma skip_loop_length:
  "skip_loop cond cur ts = (cur', ts') \<Longrightarrow>
     pending cur' + length ts' \<le> pending cur + length ts"
  by (induction cond cur ts rule: skip_loop.induct) (auto split: if_splits)

lemma remaining_skip_while: "remaining (skip_while cond st) \<le> remaining st"
proof -
  obtain cur' ts' where sk: "skip_loop cond (current_token st) (tokens_left st) = (cur', ts')"
    by (cases "skip_loop cond (current_token st) (tokens_left st)")
  from skip_loop_length [OF sk] show ?thesis
    by (simp add: remaining_def skip_while_def sk)
qed

lemma skip_loop_None: "skip_loop cond cur ts = (None, ts') \<Longrightarrow> cur \<noteq> None \<Longrightarrow> ts' = []"
  by (induction cond cur ts rule: skip_loop.induct) (auto split: if_splits)

lemma skip_while_exhausted:
  "current_token st \<noteq> None \<Longrightarrow> current_token (skip_while cond st) = None \<Longrightarrow>
     tokens_left (skip_while cond st) = []"
proof -
  assume a: "current_token st \<noteq> None" and b: "current_token (skip_while cond st) = None"
  obtain cur' ts' where sk: "skip_loop cond (current_token st) (tokens_left st) = (cur', ts')"
    by (cases "skip_loop cond (current_token st) (tokens_left st)")
  from b have "cur' = None" by (simp add: skip_while_def sk)
  with sk a have "ts' = []" using skip_loop_None by blast
  then show ?thesis by (simp add: skip_while_def sk)
qed

lemma consume_le: "consume e st = Inr st' \<Longrightarrow> remaining st' \<le> remaining st"
proof (cases "panic_mode st")
  case False
  assume "consume e st = Inr st'"
  with False show ?thesis
    using remaining_next_token_le [of st] remaining_next_token_le [of "st\<lparr>panic_mode := True\<rparr>"]
    by (auto simp: consume_def split: option.splits if_splits)
next
  case True
  assume c: "consume e st = Inr st'"
  let ?s = "skip_while (\<lambda>ty. ty \<noteq> e) st"
  have "remaining st' \<le> remaining ?s"
    using c True remaining_next_token_le [of ?s]
      remaining_next_token_le [of "?s\<lparr>panic_mode := False\<rparr>"]
    by (auto simp: consume_def Let_def split: option.splits if_splits)
  with remaining_skip_while [of "\<lambda>ty. ty \<noteq> e" st] show ?thesis by simp
qed

lemma consume_less:
  assumes "consume e st = Inr st'" and "current_token st \<noteq> None"
  shows "remaining st' < remaining st"
proof (cases "panic_mode st")
  case False
  with assms show ?thesis
    using remaining_next_token_less [of st]
      remaining_next_token_less [of "st\<lparr>panic_mode := True\<rparr>"]
    by (auto simp: consume_def split: option.splits if_splits)
next
  case True
  let ?s = "skip_while (\<lambda>ty. ty \<noteq> e) st"
  have le: "remaining ?s \<le> remaining st" by (rule remaining_skip_while)
  show ?thesis
  proof (cases "current_token ?s")
    case None
    then have "tokens_left ?s = []" using assms(2) skip_while_exhausted by blast
    with None have "remaining st' = 0"
      using assms(1) True by (auto simp: consume_def Let_def next_token_def remaining_def)
    moreover have "0 < remaining st" using assms(2) by (auto simp: remaining_def)
    ultimately show ?thesis by simp
  next
    case (Some t)
    then have "remaining st' < remaining ?s"
      using assms(1) True remaining_next_token_less [of ?s]
        remaining_next_token_less [of "?s\<lparr>panic_mode := False\<rparr>"]
      by (auto simp: consume_def Let_def split: if_splits)
    with le show ?thesis by simp
  qed
qed

lemma term_p_less: "term_p st = Inr (nd, st') \<Longrightarrow> remaining st' < remaining st"
  by (auto simp: term_p_def split: option.splits if_splits sum.splits dest!: consume_less)

lemma expression_less: "expression st = Inr (nd, st') \<Longrightarrow> remaining st' < remaining st"
proof -
  assume e: "expression st = Inr (nd, st')"
  then obtain l st1 where t: "term_p st = Inr (l, st1)"
    by (auto simp: expression_def split: sum.splits)
  from term_p_less [OF t] have 1: "remaining st1 < remaining st" .
  have "remaining st' \<le> remaining st1"
    using e t by (auto simp: expression_def split: option.splits if_splits sum.splits
        dest!: consume_le)
  with 1 show ?thesis by simp
qed

subsection \<open>\<^verbatim>\<open>var_declaration\<close>\<close>

text \<open>The loop \<^verbatim>\<open>while self.current_token.type == 'COMMA'\<close>, with the list \<^verbatim>\<open>var_nodes\<close>
  as it grows.\<close>

function var_declaration_loop :: "string \<Rightarrow> ast list \<Rightarrow> parser \<Rightarrow> error + ast list \<times> parser" where
  "var_declaration_loop var_type var_nodes st =
     (case current_token st of
        None \<Rightarrow> Inl AttributeError
      | Some t \<Rightarrow>
          if ttype t = ''COMMA'' then
            (case consume ''COMMA'' st of
               Inl e \<Rightarrow> Inl e
             | Inr st1 \<Rightarrow>
                 (case current_token st1 of
                    None \<Rightarrow> Inl AttributeError
                  | Some t1 \<Rightarrow>
                      (case consume ''ID'' st1 of
                         Inl e \<Rightarrow> Inl e
                       | Inr st2 \<Rightarrow>
                           var_declaration_loop var_type
                             (var_nodes @ [Node var_type [] (Some (tvalue t1))]) st2)))
          else Inr (var_nodes, st))"
  by pat_completeness auto
termination
proof (relation "measure (\<lambda>(var_type, var_nodes, st). remaining st)")
  show "wf (measure (\<lambda>(var_type, var_nodes, st). remaining st))" by simp
next
  fix var_type :: string and var_nodes :: "ast list" and st t st1 t1 st2
  assume "current_token st = Some t" "consume ''COMMA'' st = Inr st1"
    "consume ''ID'' st1 = Inr st2"
  then have "remaining st1 < remaining st" "remaining st2 \<le> remaining st1"
    by (auto dest: consume_less consume_le)
  then show "((var_type, var_nodes @ [Node var_type [] (Some (tvalue t1))], st2),
              (var_type, var_nodes, st)) \<in> measure (\<lambda>(var_type, var_nodes, st). remaining st)"
    by simp
qed

definition var_declaration :: "parser \<Rightarrow> error + ast \<times> parser" where
  "var_declaration st =
     (case current_token st of
        None \<Rightarrow> Inl AttributeError
      | Some t \<Rightarrow>
          (let var_type = ttype t in
           case consume var_type st of
             Inl e \<Rightarrow> Inl e
           | Inr st1 \<Rightarrow>
               (case current_token st1 of
                  None \<Rightarrow> Inl AttributeError
                | Some t1 \<Rightarrow>
                    (case consume ''ID'' st1 of
                       Inl e \<Rightarrow> Inl e
                     | Inr st2 \<Rightarrow>
                         (case var_declaration_loop var_type
                                 [Node var_type [] (Some (tvalue t1))] st2 of
                            Inl e \<Rightarrow> Inl e
                          | Inr (var_nodes, st3) \<Rightarrow>
                              Inr (Node ''VarDeclaration'' var_nodes None, st3))))))"

subsection \<open>\<^verbatim>\<open>assignment\<close>\<close>

text \<open>The loop of \<^verbatim>\<open>assignment\<close>, with the list \<^verbatim>\<open>assignment_nodes\<close> as it grows; when the
  loop ends the list is wrapped into the \<^verbatim>\<open>Assignments\<close> node.\<close>

function assignment_loop :: "ast list \<Rightarrow> parser \<Rightarrow> error + ast \<times> parser" where
  "assignment_loop assignment_nodes st =
     (case current_token st of
        None \<Rightarrow> Inr (Node ''Assignments'' assignment_nodes None, st)
      | Some variable_token \<Rightarrow>
          if \<not> panic_mode st \<and> ttype variable_token = ''ID'' then
            (let variable_node = Node ''Variable'' [] (Some (tvalue variable_token)) in
             case consume ''ID'' st of
               Inl e \<Rightarrow> Inl e
             | Inr st1 \<Rightarrow>
                 (case current_token st1 of
                    None \<Rightarrow> Inl AttributeError
                  | Some t1 \<Rightarrow>
                      (case (if ttype t1 = ''ASSIGN'' then
                               (case consume ''ASSIGN'' st1 of
                                  Inl e \<Rightarrow> Inl e
                                | Inr st2 \<Rightarrow> expression st2)
                             else Inr (PyNone, st1)) of
                         Inl e \<Rightarrow> Inl e
                       | Inr (expression_node, st3) \<Rightarrow>
                           assignment_loop
                             (assignment_nodes @
                                [Node ''Assignment''
                                   [variable_node, expression_node,
                                    Node ''Value'' [Tok variable_token] None] None])
                             st3)))
          else Inr (Node ''Assignments'' assignment_nodes None, st))"
  by pat_completeness auto
termination
proof (relation "measure (\<lambda>(assignment_nodes, st). remaining st)")
  show "wf (measure (\<lambda>(assignment_nodes, st). remaining st))" by simp
next
  fix assignment_nodes :: "ast list" and st variable_token variable_node st1 t1 r expression_node st3
  assume cur: "current_token st = Some variable_token"
    and c1: "consume ''ID'' st = Inr st1"
    and r: "(if ttype t1 = ''ASSIGN'' then
               (case consume ''ASSIGN'' st1 of Inl e \<Rightarrow> Inl e | Inr st2 \<Rightarrow> expression st2)
             else Inr (PyNone, st1)) = Inr r"
    and r2: "(expression_node, st3) = r"
  from cur c1 have 1: "remaining st1 < remaining st" by (auto dest: consume_less)
  from r r2 have "remaining st3 \<le> remaining st1"
    by (auto split: if_splits sum.splits dest!: consume_le expression_less)
  with 1 show "((assignment_nodes @
                   [Node ''Assignment''
                      [variable_node, expression_node,
                       Node ''Value'' [Tok variable_token] None] None], st3),
                (assignment_nodes, st)) \<in> measure (\<lambda>(assignment_nodes, st). remaining st)"
    by simp
qed

definition assignment :: "parser \<Rightarrow> error + ast \<times> parser" where
  "assignment st = assignment_loop [] st"

subsection \<open>\<^verbatim>\<open>statement_list\<close>, \<^verbatim>\<open>statement\<close> and \<^verbatim>\<open>for_loop\<close>\<close>

text \<open>These three call each other: a statement list holds statements, a statement may
  be a \<^verbatim>\<open>FOR\<close> loop, and a \<^verbatim>\<open>FOR\<close> loop holds a statement list. They are defined with a
  bound on the number of rounds of the \<^verbatim>\<open>while\<close> loop of \<^verbatim>\<open>statement_list\<close> along any
  chain of calls (the first argument); the result \<open>None\<close> says that the bound was reached
  before the call returned. That a bound as large as the number of tokens is never
  reached is proved below (\<open>productions_return\<close>, \<open>parse_returns\<close>), and so is that a
  larger bound never changes a result (\<open>productions_mono\<close>, \<open>parse_mono\<close>).\<close>

definition statement_starts :: "string list" where
  "statement_starts = [''PRINT'', ''INTEGER'', ''REAL'', ''STRING'', ''ID'', ''FOR'']"

text \<open>What an f-string prints for a value that may be \<^verbatim>\<open>None\<close>.\<close>

fun py_str :: "string option \<Rightarrow> string" where
  "py_str None = ''None''"
| "py_str (Some s) = s"

fun statement_list_loop :: "nat \<Rightarrow> ast list \<Rightarrow> parser \<Rightarrow> (error + ast \<times> parser) option"
  and statement :: "nat \<Rightarrow> parser \<Rightarrow> (error + ast \<times> parser) option"
  and for_loop :: "nat \<Rightarrow> parser \<Rightarrow> (error + (ast \<times> string option \<times> string option) \<times> parser) option"
where
  "statement_list_loop 0 kids st = None"
| "statement_list_loop (Suc n) kids st =
     (case current_token st of
        None \<Rightarrow> Some (Inr (Node ''Statements'' kids None, st))
      | Some t \<Rightarrow>
          if \<not> panic_mode st \<and> ttype t \<in> set statement_starts then
            (case statement n st of
               None \<Rightarrow> None
             | Some (Inl e) \<Rightarrow> Some (Inl e)
             | Some (Inr (statement_node, st1)) \<Rightarrow>
                 statement_list_loop n (kids @ [statement_node]) st1)
          else Some (Inr (Node ''Statements'' kids None, st)))"
| "statement n st =
     (if panic_mode st then
        Some (Inr (Node ''ErrorRecoveryStatement'' [] None,
                   skip_while (\<lambda>ty. ty \<notin> set (statement_starts @ [''END''])) st))
      else
        (case current_token st of
           None \<Rightarrow> Some (Inl AttributeError)
         | Some t \<Rightarrow>
             if ttype t = ''PRINT'' then
               (case consume ''PRINT'' st of
                  Inl e \<Rightarrow> Some (Inl e)
                | Inr st1 \<Rightarrow>
                    (let string_literal_node =
                           Node ''StringLiteral''
                             [Node ''Value''
                                [case current_token st1 of None \<Rightarrow> PyNone | Some c \<Rightarrow> Tok c]
                                None] None
                     in case consume ''STRING_LITERAL'' st1 of
                          Inl e \<Rightarrow> Some (Inl e)
                        | Inr st2 \<Rightarrow>
                            Some (Inr (Node ''PrintStatement'' [string_literal_node] None, st2))))
             else if ttype t \<in> set [''INTEGER'', ''REAL'', ''STRING''] then
               (case var_declaration st of
                  Inl e \<Rightarrow> Some (Inl e)
                | Inr (var_declaration_node, st1) \<Rightarrow>
                    Some (Inr (Node ''VarDeclaration'' [var_declaration_node] None, st1)))
             else if ttype t = ''ID'' then
               (case assignment st of
                  Inl e \<Rightarrow> Some (Inl e)
                | Inr (assignment_node, st1) \<Rightarrow>
                    Some (Inr (Node ''Assignment'' [assignment_node] None, st1)))
             else if ttype t = ''FOR'' then
               (case for_loop n st of
                  None \<Rightarrow> None
                | Some (Inl e) \<Rightarrow> Some (Inl e)
                | Some (Inr ((for_loop_node, start_value, end_value), st1)) \<Rightarrow>
                    Some (Inr (Node (''START : '' @ py_str start_value @ [CHR 0x0A]
                                       @ ''END : '' @ py_str end_value)
                                 [for_loop_node] None, st1)))
             else Some (Inl (SyntaxError (''Unexpected token: '' @ ttype t)))))"
| "for_loop n st =
     (case consume ''FOR'' st of
        Inl e \<Rightarrow> Some (Inl e)
      | Inr st1 \<Rightarrow>
          if panic_mode st1 then
            Some (Inr ((Node ''ErrorRecoveryForLoop'' [] None, None, None),
                       skip_while (\<lambda>ty. ty \<notin> set [''ID'', ''END'']) st1))
          else
            (case current_token st1 of
               None \<Rightarrow> Some (Inl AttributeError)
             | Some start_val_token \<Rightarrow>
                 if ttype start_val_token = ''ID'' then
                   (case consume ''ID'' st1 of
                      Inl e \<Rightarrow> Some (Inl e)
                    | Inr st2 \<Rightarrow>
                   (case consume ''ASSIGN'' st2 of
                      Inl e \<Rightarrow> Some (Inl e)
                    | Inr st3 \<Rightarrow>
                   (case expression st3 of
                      Inl e \<Rightarrow> Some (Inl e)
                    | Inr (start_expression, st4) \<Rightarrow>
                   (case consume ''TO'' st4 of
                      Inl e \<Rightarrow> Some (Inl e)
                    | Inr st5 \<Rightarrow>
                   (case current_token st5 of
                      None \<Rightarrow> Some (Inl AttributeError)
                    | Some end_val_token \<Rightarrow>
                   (case expression st5 of
                      Inl e \<Rightarrow> Some (Inl e)
                    | Inr (end_expression, st6) \<Rightarrow>
                   (case statement_list_loop n [] st6 of
                      None \<Rightarrow> None
                    | Some (Inl e) \<Rightarrow> Some (Inl e)
                    | Some (Inr (statements_node, st7)) \<Rightarrow>
                   (case consume ''END'' st7 of
                      Inl e \<Rightarrow> Some (Inl e)
                    | Inr st8 \<Rightarrow>
                        Some (Inr ((Node ''ForLoop'' [statements_node] None,
                                    Some (tvalue start_val_token),
                                    Some (tvalue end_val_token)), st8))))))))))
                 else
                   Some (Inr ((Node ''ErrorRecoveryForLoop'' [] None, None, None),
                              skip_while (\<lambda>ty. ty \<notin> set [''ID'', ''END'']) st1))))"

text \<open>The equations of \<open>statement\<close> and \<open>for_loop\<close> apply to every argument; they are
  unfolded by hand where a proof needs them.\<close>

declare statement.simps [simp del] for_loop.simps [simp del]

definition statement_list :: "nat \<Rightarrow> parser \<Rightarrow> (error + ast \<times> parser) option" where
  "statement_list n st = statement_list_loop n [] st"

subsection \<open>\<^verbatim>\<open>program\<close> and \<^verbatim>\<open>parse\<close>\<close>

definition program :: "nat \<Rightarrow> parser \<Rightarrow> (error + ast \<times> parser) option" where
  "program n st =
     (case consume ''BEGIN'' st of
        Inl e \<Rightarrow> Some (Inl e)
      | Inr st1 \<Rightarrow>
          (case statement_list n st1 of
             None \<Rightarrow> None
           | Some (Inl e) \<Rightarrow> Some (Inl e)
           | Some (Inr (statements_node, st2)) \<Rightarrow>
               (let st3 = skip_while (\<lambda>ty. ty \<notin> set [''END'', ''BEGIN'']) st2 in
                case (case current_token st3 of
                        None \<Rightarrow> Inr st3
                      | Some t \<Rightarrow> if ttype t = ''END'' then consume ''END'' st3 else Inr st3) of
                  Inl e \<Rightarrow> Some (Inl e)
                | Inr st4 \<Rightarrow> Some (Inr (Node ''Program'' [statements_node] None, st4)))))"

text \<open>\<^verbatim>\<open>Parser(lexer)\<close> starts without a current token and outside panic mode;
  \<^verbatim>\<open>parse\<close> pulls the first token with \<^verbatim>\<open>next(self.lexer)\<close>, which has no default and
  raises \<^verbatim>\<open>StopIteration\<close> on a generator that yields nothing.\<close>

definition init_parser :: "token list \<Rightarrow> parser" where
  "init_parser toks = \<lparr>tokens_left = toks, current_token = None, panic_mode = False\<rparr>"

definition parse :: "nat \<Rightarrow> token list \<Rightarrow> (error + ast) option" where
  "parse n toks =
     (case tokens_left (init_parser toks) of
        [] \<Rightarrow> Some (Inl StopIteration)
      | t # ts \<Rightarrow>
          (case program n ((init_parser toks)\<lparr>tokens_left := ts, current_token := Some t\<rparr>) of
             None \<Rightarrow> None
           | Some (Inl e) \<Rightarrow> Some (Inl e)
           | Some (Inr (program_node, st)) \<Rightarrow> Some (Inr program_node)))"

section \<open>Properties of the lexer\<close>

subsection \<open>Keywords before identifiers\<close>

lemma lit_prefix: "lit w (w @ rest) = Some (length w)"
  by (simp add: lit_def)

lemma lit_Some_iff: "lit w s = Some n \<longleftrightarrow> (\<exists>rest. s = w @ rest) \<and> n = length w"
proof
  assume "lit w s = Some n"
  then have "take (length w) s = w" and n: "n = length w"
    by (auto simp: lit_def split: if_splits)
  then have "s = w @ drop (length w) s" by (metis append_take_drop_id)
  with n show "(\<exists>rest. s = w @ rest) \<and> n = length w" by blast
next
  assume "(\<exists>rest. s = w @ rest) \<and> n = length w"
  then show "lit w s = Some n" by (auto simp: lit_prefix)
qed

lemma keyword_is_identifier_start:
  "\<forall>k \<in> set keyword_names. re_ID (k @ rest) \<noteq> None \<and> k \<noteq> ''WHITESPACE''"
  by (simp add: keyword_names_def re_ID_def is_letter_def)

lemma keyword_token_pattern:
  "\<forall>k \<in> set keyword_names. token_pattern (k @ rest) = Some (k, length k)"
  by (simp add: token_pattern_def token_specification_def keyword_names_def lit_def)

lemma token_pattern_Nil: "token_pattern [] = None"
  by (simp add: token_pattern_def token_specification_def keyword_names_def lit_def re_ID_def
      re_FLOAT_def re_INT_def re_STRING_LITERAL_def re_OPERATOR_def re_WHITESPACE_def
      opt_sign_def)

lemma lexer_loop_match:
  assumes "token_pattern s = Some (name, n)"
  shows "lexer_loop ln col s =
           (if name \<noteq> ''WHITESPACE'' then [Token name (take n s) ln col] else [])
           @ lexer_loop (ln + 1) 1 (drop n s)"
proof (cases s)
  case Nil
  with assms show ?thesis by (simp add: token_pattern_Nil)
next
  case (Cons c cs)
  with assms show ?thesis by simp
qed

text \<open>
  \<^bold>\<open>C7\<close>. At every scan position where a keyword pattern matches (the text from that
  position on starts with one of \<^verbatim>\<open>BEGIN\<close>, \<^verbatim>\<open>END\<close>, \<^verbatim>\<open>PRINT\<close>, \<^verbatim>\<open>FOR\<close>, \<^verbatim>\<open>TO\<close>,
  \<^verbatim>\<open>INTEGER\<close>, \<^verbatim>\<open>REAL\<close>, \<^verbatim>\<open>STRING\<close>), the identifier pattern matches as well, yet the
  match of the combined pattern is the keyword group with exactly the keyword as text, and
  the lexer yields the keyword token there and goes on behind the keyword. This holds
  whether the keyword is the whole word or only the beginning of a longer word.
\<close>

theorem keyword_wins_over_identifier:
  assumes "k \<in> set keyword_names" and "lit k s \<noteq> None"
  shows "re_ID s \<noteq> None
       \<and> token_pattern s = Some (k, length k)
       \<and> lexer_loop ln col s = Token k k ln col # lexer_loop (ln + 1) 1 (drop (length k) s)"
proof -
  from assms(2) obtain rest where s: "s = k @ rest"
    using lit_Some_iff by fastforce
  have 1: "re_ID s \<noteq> None" using assms(1) s keyword_is_identifier_start by blast
  have 2: "token_pattern s = Some (k, length k)"
    using assms(1) s keyword_token_pattern by blast
  have "k \<noteq> ''WHITESPACE''" using assms(1) keyword_is_identifier_start by blast
  with lexer_loop_match [OF 2, of ln col] s
  have 3: "lexer_loop ln col s = Token k k ln col # lexer_loop (ln + 1) 1 (drop (length k) s)"
    by simp
  from 1 2 3 show ?thesis by blast
qed

theorem keyword_wins_over_identifier_witness:
  "''TO'' \<in> set keyword_names \<and> lit ''TO'' ''TOTAL'' \<noteq> None
   \<and> re_ID ''TOTAL'' = Some 5
   \<and> lexer ''TOTAL'' = [Token ''TO'' ''TO'' 1 1, Token ''ID'' ''TAL'' 2 1]"
proof -
  have a: "''TO'' \<in> set keyword_names" by (simp add: keyword_names_def)
  have b: "lit ''TO'' ''TOTAL'' \<noteq> None" by (simp add: lit_def)
  have c: "re_ID ''TOTAL'' = Some 5" by code_simp
  have d: "lexer_loop 2 1 ''TAL'' = [Token ''ID'' ''TAL'' 2 1]" by code_simp
  from keyword_wins_over_identifier [OF a b, of 1 1] d
  have "lexer ''TOTAL'' = [Token ''TO'' ''TO'' 1 1, Token ''ID'' ''TAL'' 2 1]"
    by (simp add: lexer_def)
  with a b c show ?thesis by blast
qed

subsection \<open>Line and column of a token\<close>

lemma lexer_loop_column:
  "t \<in> set (lexer_loop ln col s) \<Longrightarrow> column t = col \<or> column t = 1"
proof (induction ln col s rule: lexer_loop.induct)
  case (1 ln col)
  then show ?case by simp
next
  case (2 ln col c cs)
  show ?case
  proof (cases "token_pattern (c # cs)")
    case None
    with 2 show ?thesis by simp
  next
    case (Some p)
    obtain name n where p: "p = (name, n)" by (cases p)
    from "2.prems" Some p have
      "t = Token name (take n (c # cs)) ln col \<or> t \<in> set (lexer_loop (ln + 1) 1 (drop n (c # cs)))"
      by (auto split: if_splits)
    then show ?thesis
    proof
      assume "t = Token name (take n (c # cs)) ln col"
      then show ?thesis by simp
    next
      assume "t \<in> set (lexer_loop (ln + 1) 1 (drop n (c # cs)))"
      from "2.IH"(2) [OF Some p [symmetric] this] show ?thesis by simp
    qed
  qed
qed

text \<open>Every token the lexer yields has column 1, wherever it starts in its line.\<close>

lemma lexer_column_is_1: "t \<in> set (lexer s) \<Longrightarrow> column t = 1"
  using lexer_loop_column [of t 1 1 s] by (auto simp: lexer_def)

text \<open>
  \<^bold>\<open>C8\<close>. The claim is that a token records the line and the column at which it starts.
  In \<^verbatim>\<open>BEGIN END\<close> the token \<^verbatim>\<open>END\<close> starts in line 1 at column 7. The lexer records
  line 3 and column 1 for it: \<^verbatim>\<open>line_number\<close> is increased once per match of the pattern
  (also for the white space between the two words), not once per newline, and \<^verbatim>\<open>column\<close>
  is set back to 1 after each match.
\<close>

theorem lexer_records_match_count_as_line:
  "lexer ''BEGIN END'' = [Token ''BEGIN'' ''BEGIN'' 1 1, Token ''END'' ''END'' 3 1]"
  by code_simp

subsection \<open>The text of a string literal\<close>

lemma first_match_mem:
  "first_match sp s = Some (name, n) \<Longrightarrow> \<exists>m. (name, m) \<in> set sp \<and> m s = Some n"
  by (induction sp s rule: first_match.induct) (auto split: option.splits)

lemma string_literal_matcher:
  "(''STRING_LITERAL'', m) \<in> set token_specification \<Longrightarrow> m = re_STRING_LITERAL"
  by (simp add: token_specification_def keyword_names_def)

lemma re_STRING_LITERAL_text:
  assumes "re_STRING_LITERAL s = Some n"
  shows "\<exists>body. take n s = dquote # body @ [dquote] \<and> dquote \<notin> set body"
proof -
  from assms obtain cs where s: "s = dquote # cs"
    by (auto simp: re_STRING_LITERAL_def split: list.splits if_splits)
  let ?body = "takeWhile (\<lambda>x. x \<noteq> dquote) cs"
  let ?rest = "dropWhile (\<lambda>x. x \<noteq> dquote) cs"
  from assms s have len: "length ?body < length cs" and n: "n = length ?body + 2"
    by (auto simp: re_STRING_LITERAL_def Let_def split: if_splits)
  have cs: "cs = ?body @ ?rest" by simp
  from len have "?rest \<noteq> []"
    by (metis append_Nil2 cs less_irrefl)
  then obtain q rest' where r: "?rest = q # rest'" by (cases ?rest) auto
  then have "q = dquote"
    using hd_dropWhile [of "\<lambda>x. x \<noteq> dquote" cs] by auto
  with r cs have cs': "cs = ?body @ dquote # rest'" by simp
  have "take (length ?body + 1) (?body @ dquote # rest') = ?body @ [dquote]"
    by simp
  with cs' have "take (length ?body + 1) cs = ?body @ [dquote]" by simp
  with s n have "take n s = dquote # ?body @ [dquote]" by simp
  moreover have "dquote \<notin> set ?body"
    by (auto dest: set_takeWhileD)
  ultimately show ?thesis by blast
qed

lemma lexer_loop_token:
  "t \<in> set (lexer_loop ln col s) \<Longrightarrow>
     \<exists>s' n. token_pattern s' = Some (ttype t, n) \<and> tvalue t = take n s'"
proof (induction ln col s rule: lexer_loop.induct)
  case (1 ln col)
  then show ?case by simp
next
  case (2 ln col c cs)
  show ?case
  proof (cases "token_pattern (c # cs)")
    case None
    with 2 show ?thesis by simp
  next
    case (Some p)
    obtain name n where p: "p = (name, n)" by (cases p)
    from "2.prems" Some p have
      "t = Token name (take n (c # cs)) ln col \<or> t \<in> set (lexer_loop (ln + 1) 1 (drop n (c # cs)))"
      by (auto split: if_splits)
    then show ?thesis
    proof
      assume "t = Token name (take n (c # cs)) ln col"
      with Some p show ?thesis by auto
    next
      assume "t \<in> set (lexer_loop (ln + 1) 1 (drop n (c # cs)))"
      from "2.IH"(2) [OF Some p [symmetric] this] show ?thesis .
    qed
  qed
qed

text \<open>
  \<^bold>\<open>C5\<close> (as amended). The text of every string literal token the lexer yields is the
  whole match of \<^verbatim>\<open>"[^"]*"\<close>: the opening quote, the characters between the quotes (none
  of them a quote) and the closing quote. The quotes are part of the stored text.
\<close>

theorem string_literal_text_includes_quotes:
  assumes "t \<in> set (lexer input_code)" and "ttype t = ''STRING_LITERAL''"
  shows "\<exists>body. tvalue t = dquote # body @ [dquote] \<and> dquote \<notin> set body"
proof -
  from assms obtain s' n where
    tp: "token_pattern s' = Some (''STRING_LITERAL'', n)" and v: "tvalue t = take n s'"
    using lexer_loop_token [of t 1 1 input_code] by (auto simp: lexer_def)
  from tp obtain m where "(''STRING_LITERAL'', m) \<in> set token_specification" "m s' = Some n"
    using first_match_mem by (fastforce simp: token_pattern_def)
  then have "re_STRING_LITERAL s' = Some n"
    using string_literal_matcher by blast
  from re_STRING_LITERAL_text [OF this] v show ?thesis by simp
qed

theorem string_literal_text_includes_quotes_witness:
  "Token ''STRING_LITERAL'' (dquote # ''HI'' @ [dquote]) 5 1
     \<in> set (lexer (''BEGIN PRINT '' @ [dquote] @ ''HI'' @ [dquote] @ '' END''))
   \<and> (\<exists>body. tvalue (Token ''STRING_LITERAL'' (dquote # ''HI'' @ [dquote]) 5 1)
               = dquote # body @ [dquote] \<and> dquote \<notin> set body)"
proof -
  have l: "lexer (''BEGIN PRINT '' @ [dquote] @ ''HI'' @ [dquote] @ '' END'')
             = [Token ''BEGIN'' ''BEGIN'' 1 1, Token ''PRINT'' ''PRINT'' 3 1,
                Token ''STRING_LITERAL'' (dquote # ''HI'' @ [dquote]) 5 1,
                Token ''END'' ''END'' 7 1]"
    by code_simp
  have m: "Token ''STRING_LITERAL'' (dquote # ''HI'' @ [dquote]) 5 1
     \<in> set (lexer (''BEGIN PRINT '' @ [dquote] @ ''HI'' @ [dquote] @ '' END''))"
    by (simp only: l) simp
  from string_literal_text_includes_quotes [OF m] m show ?thesis by simp
qed

text \<open>The claim as written says that the stored text is \<^verbatim>\<open>HI\<close>. The token of
  \<^verbatim>\<open>BEGIN PRINT "HI" END\<close> carries the four characters \<^verbatim>\<open>"HI"\<close>, and that token is what the
  \<^verbatim>\<open>Value\<close> node below \<^verbatim>\<open>PrintStatement\<close> and \<^verbatim>\<open>StringLiteral\<close> holds.\<close>

theorem print_statement_payload_has_quotes:
  "parse 4 [Token ''BEGIN'' ''BEGIN'' 1 1, Token ''PRINT'' ''PRINT'' 3 1,
            Token ''STRING_LITERAL'' [CHR 0x22, CHR ''H'', CHR ''I'', CHR 0x22] 5 1,
            Token ''END'' ''END'' 7 1]
     = Some (Inr (Node ''Program''
         [Node ''Statements''
            [Node ''PrintStatement''
               [Node ''StringLiteral''
                  [Node ''Value''
                     [Tok (Token ''STRING_LITERAL'' [CHR 0x22, CHR ''H'', CHR ''I'', CHR 0x22] 5 1)]
                     None] None] None] None] None))
   \<and> lexer (''BEGIN PRINT '' @ [CHR 0x22] @ ''HI'' @ [CHR 0x22] @ '' END'')
     = [Token ''BEGIN'' ''BEGIN'' 1 1, Token ''PRINT'' ''PRINT'' 3 1,
        Token ''STRING_LITERAL'' [CHR 0x22, CHR ''H'', CHR ''I'', CHR 0x22] 5 1,
        Token ''END'' ''END'' 7 1]
   \<and> [CHR 0x22, CHR ''H'', CHR ''I'', CHR 0x22] \<noteq> ''HI''"
proof -
  have 1: "parse 4 [Token ''BEGIN'' ''BEGIN'' 1 1, Token ''PRINT'' ''PRINT'' 3 1,
            Token ''STRING_LITERAL'' [CHR 0x22, CHR ''H'', CHR ''I'', CHR 0x22] 5 1,
            Token ''END'' ''END'' 7 1]
     = Some (Inr (Node ''Program''
         [Node ''Statements''
            [Node ''PrintStatement''
               [Node ''StringLiteral''
                  [Node ''Value''
                     [Tok (Token ''STRING_LITERAL'' [CHR 0x22, CHR ''H'', CHR ''I'', CHR 0x22] 5 1)]
                     None] None] None] None] None))"
    by code_simp
  have 2: "lexer (''BEGIN PRINT '' @ [CHR 0x22] @ ''HI'' @ [CHR 0x22] @ '' END'')
     = [Token ''BEGIN'' ''BEGIN'' 1 1, Token ''PRINT'' ''PRINT'' 3 1,
        Token ''STRING_LITERAL'' [CHR 0x22, CHR ''H'', CHR ''I'', CHR 0x22] 5 1,
        Token ''END'' ''END'' 7 1]"
    by code_simp
  have 3: "[CHR 0x22, CHR ''H'', CHR ''I'', CHR 0x22] \<noteq> ''HI''" by simp
  from 1 2 3 show ?thesis by blast
qed

section \<open>Properties of the parser\<close>

subsection \<open>The shape of the root\<close>

lemma statement_list_loop_kind:
  "statement_list_loop n kids st = Some (Inr (nd, st')) \<Longrightarrow>
     \<exists>kids'. nd = Node ''Statements'' kids' None"
proof (induction n arbitrary: kids st)
  case 0
  then show ?case by simp
next
  case (Suc n)
  show ?case
  proof (cases "\<exists>t. current_token st = Some t \<and> \<not> panic_mode st \<and> ttype t \<in> set statement_starts")
    case False
    with Suc.prems show ?thesis by (auto split: option.splits if_splits)
  next
    case True
    then obtain t where t: "current_token st = Some t" "\<not> panic_mode st"
      "ttype t \<in> set statement_starts" by blast
    with Suc.prems obtain sn st1 where
      "statement_list_loop n (kids @ [sn]) st1 = Some (Inr (nd, st'))"
      by (simp split: option.splits sum.splits prod.splits)
    then show ?thesis by (rule Suc.IH)
  qed
qed

text \<open>
  \<^bold>\<open>C6\<close>. Whenever \<^verbatim>\<open>parse\<close> returns a tree (it neither raises nor fails to return),
  the root is a \<^verbatim>\<open>Program\<close> node with exactly one child, and that child is a node of
  type \<^verbatim>\<open>Statements\<close>.
\<close>

theorem program_root_has_one_statements_child:
  assumes "parse n toks = Some (Inr root)"
  shows "\<exists>kids. root = Node ''Program'' [Node ''Statements'' kids None] None"
proof -
  from assms obtain t ts st where
    p: "program n ((init_parser toks)\<lparr>tokens_left := ts, current_token := Some t\<rparr>)
          = Some (Inr (root, st))"
    by (auto simp: parse_def split: list.splits option.splits sum.splits)
  then obtain st1 sn st2 where
    sl: "statement_list_loop n [] st1 = Some (Inr (sn, st2))"
    and root: "root = Node ''Program'' [sn] None"
    by (auto simp: program_def statement_list_def Let_def
        split: sum.splits option.splits prod.splits if_splits)
  from statement_list_loop_kind [OF sl] root show ?thesis by blast
qed

theorem program_root_has_one_statements_child_witness:
  "parse 4 (lexer ''BEGIN INTEGER A END'')
     = Some (Inr (Node ''Program''
          [Node ''Statements''
             [Node ''VarDeclaration''
                [Node ''VarDeclaration'' [Node ''INTEGER'' [] (Some ''A'')] None] None]
             None] None))
   \<and> (\<exists>kids. Node ''Program''
          [Node ''Statements''
             [Node ''VarDeclaration''
                [Node ''VarDeclaration'' [Node ''INTEGER'' [] (Some ''A'')] None] None]
             None] None
        = Node ''Program'' [Node ''Statements'' kids None] None)"
proof -
  have l: "lexer ''BEGIN INTEGER A END''
     = [Token ''BEGIN'' ''BEGIN'' 1 1, Token ''INTEGER'' ''INTEGER'' 3 1,
        Token ''ID'' ''A'' 5 1, Token ''END'' ''END'' 7 1]"
    by code_simp
  have p: "parse 4 [Token ''BEGIN'' ''BEGIN'' 1 1, Token ''INTEGER'' ''INTEGER'' 3 1,
        Token ''ID'' ''A'' 5 1, Token ''END'' ''END'' 7 1]
     = Some (Inr (Node ''Program''
          [Node ''Statements''
             [Node ''VarDeclaration''
                [Node ''VarDeclaration'' [Node ''INTEGER'' [] (Some ''A'')] None] None]
             None] None))"
    by code_simp
  have h: "parse 4 (lexer ''BEGIN INTEGER A END'')
     = Some (Inr (Node ''Program''
          [Node ''Statements''
             [Node ''VarDeclaration''
                [Node ''VarDeclaration'' [Node ''INTEGER'' [] (Some ''A'')] None] None]
             None] None))"
    by (simp only: l p)
  from program_root_has_one_statements_child [OF h] h show ?thesis by blast
qed

subsection \<open>An empty token sequence\<close>

lemma token_pattern_space:
  assumes "is_space c"
  shows "token_pattern (c # cs) = Some (''WHITESPACE'', Suc (length (takeWhile is_space cs)))"
proof -
  have n: "\<not> is_letter c" "\<not> is_digit c" "\<not> is_sign c" "\<not> is_opchar c" "c \<noteq> dquote"
    "c \<noteq> CHR '':''" "c \<noteq> CHR '',''"
    using assms by (auto simp: is_space_def is_letter_def is_digit_def is_sign_def
        is_opchar_def dquote_def Let_def)
  then have l: "c \<noteq> CHR ''B''" "c \<noteq> CHR ''E''" "c \<noteq> CHR ''P''" "c \<noteq> CHR ''F''"
    "c \<noteq> CHR ''T''" "c \<noteq> CHR ''I''" "c \<noteq> CHR ''R''" "c \<noteq> CHR ''S''"
    by (auto simp: is_letter_def Let_def)
  show ?thesis
    using n l assms
    by (simp add: token_pattern_def token_specification_def keyword_names_def lit_def
        re_ID_def re_FLOAT_def re_INT_def re_STRING_LITERAL_def re_OPERATOR_def
        re_WHITESPACE_def opt_sign_def)
qed

lemma lexer_loop_white_space: "\<forall>c \<in> set s. is_space c \<Longrightarrow> lexer_loop ln col s = []"
proof (induction s arbitrary: ln col)
  case Nil
  then show ?case by simp
next
  case (Cons c cs)
  then have all: "takeWhile is_space cs = cs" by (simp add: takeWhile_eq_all_conv)
  from Cons.prems have "is_space c" by simp
  from token_pattern_space [OF this, of cs] all show ?case by simp
qed

lemma white_space_no_tokens: "\<forall>c \<in> set s. is_space c \<Longrightarrow> lexer s = []"
  by (simp add: lexer_def lexer_loop_white_space)

text \<open>
  \<^bold>\<open>C10\<close>. For every source text whose token sequence is empty, \<^verbatim>\<open>parse\<close> raises
  \<^verbatim>\<open>StopIteration\<close> (from \<^verbatim>\<open>next(self.lexer)\<close>): it returns no node and raises no
  \<^verbatim>\<open>SyntaxError\<close>. The empty text and every text of white space only have an empty token
  sequence (\<open>white_space_no_tokens\<close>).
\<close>

theorem parse_without_tokens_raises_StopIteration:
  assumes "lexer input_code = []"
  shows "parse n (lexer input_code) = Some (Inl StopIteration)"
  using assms by (simp add: parse_def init_parser_def)

theorem parse_without_tokens_raises_StopIteration_witness:
  "lexer [CHR '' '', CHR 0x0A, CHR '' ''] = []
   \<and> parse 0 (lexer [CHR '' '', CHR 0x0A, CHR '' '']) = Some (Inl StopIteration)"
proof -
  have h: "lexer [CHR '' '', CHR 0x0A, CHR '' ''] = []"
    by (rule white_space_no_tokens) (simp add: is_space_def)
  from parse_without_tokens_raises_StopIteration [OF h, of 0] h show ?thesis by blast
qed

subsection \<open>Progress and termination\<close>

text \<open>A result that is there (the bound was not reached) and, when it is a normal return,
  leaves no more (\<open>ok_le\<close>) or strictly fewer (\<open>ok_less\<close>) tokens than the state the
  call started in.\<close>

definition ok_le :: "parser \<Rightarrow> (error + 'a \<times> parser) option \<Rightarrow> bool" where
  "ok_le st r = (case r of None \<Rightarrow> False | Some (Inl e) \<Rightarrow> True
                 | Some (Inr (x, st')) \<Rightarrow> remaining st' \<le> remaining st)"

definition ok_less :: "parser \<Rightarrow> (error + 'a \<times> parser) option \<Rightarrow> bool" where
  "ok_less st r = (case r of None \<Rightarrow> False | Some (Inl e) \<Rightarrow> True
                   | Some (Inr (x, st')) \<Rightarrow> remaining st' < remaining st)"

text \<open>The equations of the two loops apply to every argument, so they are unfolded one
  round at a time.\<close>

declare var_declaration_loop.simps [simp del] assignment_loop.simps [simp del]

lemma var_declaration_loop_le:
  "var_declaration_loop var_type var_nodes st = Inr (ns, st') \<Longrightarrow> remaining st' \<le> remaining st"
proof (induction var_type var_nodes st rule: var_declaration_loop.induct)
  case (1 var_type var_nodes st)
  show ?case
  proof (cases "\<exists>t. current_token st = Some t \<and> ttype t = ''COMMA''")
    case False
    with "1.prems" show ?thesis
      by (auto simp: var_declaration_loop.simps [of var_type var_nodes st]
          split: option.splits if_splits)
  next
    case True
    then obtain t where t: "current_token st = Some t" "ttype t = ''COMMA''" by blast
    with "1.prems" obtain st1 t1 st2 where
      c1: "consume ''COMMA'' st = Inr st1" and t1: "current_token st1 = Some t1"
      and c2: "consume ''ID'' st1 = Inr st2"
      and rec: "var_declaration_loop var_type
                  (var_nodes @ [Node var_type [] (Some (tvalue t1))]) st2 = Inr (ns, st')"
      by (auto simp: var_declaration_loop.simps [of var_type var_nodes st]
          split: option.splits sum.splits)
    from "1.IH" [OF t(1) t(2) c1 t1 c2 rec] have "remaining st' \<le> remaining st2" .
    with consume_le [OF c1] consume_le [OF c2] show ?thesis by simp
  qed
qed

lemma var_declaration_less:
  assumes "var_declaration st = Inr (nd, st')"
  shows "remaining st' < remaining st"
proof -
  from assms obtain t st1 t1 st2 ns where
    t: "current_token st = Some t" and c1: "consume (ttype t) st = Inr st1"
    and c2: "consume ''ID'' st1 = Inr st2"
    and l: "var_declaration_loop (ttype t) [Node (ttype t) [] (Some (tvalue t1))] st2 = Inr (ns, st')"
    by (auto simp: var_declaration_def Let_def split: option.splits sum.splits)
  from t c1 have "remaining st1 < remaining st" by (auto dest: consume_less)
  with consume_le [OF c2] var_declaration_loop_le [OF l] show ?thesis by simp
qed

text \<open>One round of the loop of \<^verbatim>\<open>assignment\<close> that ends in a normal return.\<close>

lemma assignment_loop_step:
  assumes ret: "assignment_loop assignment_nodes st = Inr (nd, st')"
    and t: "current_token st = Some t" "\<not> panic_mode st" "ttype t = ''ID''"
  obtains st1 t1 en st3 where
    "consume ''ID'' st = Inr st1" "current_token st1 = Some t1"
    "(if ttype t1 = ''ASSIGN'' then
        (case consume ''ASSIGN'' st1 of Inl e \<Rightarrow> Inl e | Inr st2 \<Rightarrow> expression st2)
      else Inr (PyNone, st1)) = Inr (en, st3)"
    "assignment_loop
       (assignment_nodes @
          [Node ''Assignment''
             [Node ''Variable'' [] (Some (tvalue t)), en, Node ''Value'' [Tok t] None] None])
       st3 = Inr (nd, st')"
proof (cases "consume ''ID'' st")
  case (Inl e)
  with ret t show ?thesis
    by (simp add: assignment_loop.simps [of assignment_nodes st] Let_def)
next
  case c1: (Inr st1)
  show ?thesis
  proof (cases "current_token st1")
    case None
    with ret t c1 show ?thesis
      by (simp add: assignment_loop.simps [of assignment_nodes st] Let_def)
  next
    case t1: (Some t1)
    let ?r = "if ttype t1 = ''ASSIGN'' then
        (case consume ''ASSIGN'' st1 of Inl e \<Rightarrow> Inl e | Inr st2 \<Rightarrow> expression st2)
      else Inr (PyNone, st1)"
    show ?thesis
    proof (cases ?r)
      case (Inl e)
      with ret t c1 t1 show ?thesis
        by (simp add: assignment_loop.simps [of assignment_nodes st] Let_def)
    next
      case (Inr p)
      obtain en st3 where p: "p = (en, st3)" by (cases p)
      from ret t c1 t1 Inr p have
        "assignment_loop
           (assignment_nodes @
              [Node ''Assignment''
                 [Node ''Variable'' [] (Some (tvalue t)), en, Node ''Value'' [Tok t] None] None])
           st3 = Inr (nd, st')"
        by (simp add: assignment_loop.simps [of assignment_nodes st] Let_def)
      with c1 t1 Inr p that show ?thesis by blast
    qed
  qed
qed

lemma assignment_step_le:
  assumes "(if ttype t1 = ''ASSIGN'' then
        (case consume ''ASSIGN'' st1 of Inl e \<Rightarrow> Inl e | Inr st2 \<Rightarrow> expression st2)
      else Inr (PyNone, st1)) = Inr (en, st3)"
  shows "remaining st3 \<le> remaining st1"
proof (cases "ttype t1 = ''ASSIGN''")
  case False
  with assms show ?thesis by simp
next
  case True
  with assms obtain st2 where "consume ''ASSIGN'' st1 = Inr st2" "expression st2 = Inr (en, st3)"
    by (cases "consume ''ASSIGN'' st1") auto
  then show ?thesis using consume_le expression_less by fastforce
qed

lemma assignment_loop_le:
  "assignment_loop assignment_nodes st = Inr (nd, st') \<Longrightarrow> remaining st' \<le> remaining st"
proof (induction assignment_nodes st rule: assignment_loop.induct)
  case (1 assignment_nodes st)
  show ?case
  proof (cases "\<exists>t. current_token st = Some t \<and> \<not> panic_mode st \<and> ttype t = ''ID''")
    case False
    with "1.prems" show ?thesis
      by (auto simp: assignment_loop.simps [of assignment_nodes st]
          split: option.splits if_splits)
  next
    case True
    then obtain t where t: "current_token st = Some t" "\<not> panic_mode st \<and> ttype t = ''ID''"
      by blast
    from t have t': "\<not> panic_mode st" "ttype t = ''ID''" by simp_all
    from assignment_loop_step [OF "1.prems" t(1) t'] obtain st1 t1 en st3 where
      c1: "consume ''ID'' st = Inr st1" and t1: "current_token st1 = Some t1"
      and r: "(if ttype t1 = ''ASSIGN'' then
                 (case consume ''ASSIGN'' st1 of Inl e \<Rightarrow> Inl e | Inr st2 \<Rightarrow> expression st2)
               else Inr (PyNone, st1)) = Inr (en, st3)"
      and rec: "assignment_loop
                  (assignment_nodes @
                     [Node ''Assignment''
                        [Node ''Variable'' [] (Some (tvalue t)), en,
                         Node ''Value'' [Tok t] None] None]) st3 = Inr (nd, st')"
      by blast
    have "remaining st' \<le> remaining st3"
      using "1.IH" [OF t(1) t(2) refl c1 t1 r refl rec] .
    moreover have "remaining st3 \<le> remaining st1" using assignment_step_le [OF r] .
    moreover have "remaining st1 < remaining st"
      using c1 t(1) by (auto dest: consume_less)
    ultimately show ?thesis by simp
  qed
qed

lemma assignment_less:
  assumes "assignment st = Inr (nd, st')" and "current_token st = Some t"
    and "\<not> panic_mode st" and "ttype t = ''ID''"
  shows "remaining st' < remaining st"
proof -
  from assms(1) have ret: "assignment_loop [] st = Inr (nd, st')" by (simp add: assignment_def)
  show ?thesis
  proof (rule assignment_loop_step [OF ret assms(2-4)])
    fix st1 t1 en st3
    assume c1: "consume ''ID'' st = Inr st1"
      and r: "(if ttype t1 = ''ASSIGN'' then
               (case consume ''ASSIGN'' st1 of Inl e \<Rightarrow> Inl e | Inr st2 \<Rightarrow> expression st2)
             else Inr (PyNone, st1)) = Inr (en, st3)"
      and rec: "assignment_loop
                  ([] @ [Node ''Assignment''
                           [Node ''Variable'' [] (Some (tvalue t)), en,
                            Node ''Value'' [Tok t] None] None]) st3 = Inr (nd, st')"
    have "remaining st1 < remaining st"
      using c1 assms(2) by (auto dest: consume_less)
    with assignment_step_le [OF r] assignment_loop_le [OF rec] show ?thesis by simp
  qed
qed

text \<open>A \<^verbatim>\<open>FOR\<close> loop returns with fewer tokens left, provided the statement list inside
  it returns.\<close>

lemma for_loop_ok:
  assumes IH: "\<And>st'. remaining st' < n \<Longrightarrow> ok_le st' (statement_list_loop n [] st')"
    and n: "remaining st \<le> n" and cur: "current_token st \<noteq> None"
  shows "ok_less st (for_loop n st)"
proof (cases "for_loop n st")
  case None
  then obtain st1 st2 st3 st4 st5 st6 se ee where
    c: "consume ''FOR'' st = Inr st1" "consume ''ID'' st1 = Inr st2"
       "consume ''ASSIGN'' st2 = Inr st3" "expression st3 = Inr (se, st4)"
       "consume ''TO'' st4 = Inr st5" "expression st5 = Inr (ee, st6)"
    and sl: "statement_list_loop n [] st6 = None"
    by (auto simp: for_loop.simps [of n st] split: sum.splits option.splits if_splits prod.splits)
  have "remaining st1 < remaining st" using consume_less [OF c(1) cur] .
  moreover have "remaining st2 \<le> remaining st1" using consume_le [OF c(2)] .
  moreover have "remaining st3 \<le> remaining st2" using consume_le [OF c(3)] .
  moreover have "remaining st4 < remaining st3" using expression_less [OF c(4)] .
  moreover have "remaining st5 \<le> remaining st4" using consume_le [OF c(5)] .
  moreover have "remaining st6 < remaining st5" using expression_less [OF c(6)] .
  ultimately have "remaining st6 < n" using n by simp
  from IH [OF this] sl show ?thesis by (simp add: ok_le_def)
next
  case (Some r)
  show ?thesis
  proof (cases r)
    case (Inl e)
    with Some show ?thesis by (simp add: ok_less_def)
  next
    case (Inr p)
    obtain x st' where p: "p = (x, st')" by (cases p)
    from Some Inr p have ret: "for_loop n st = Some (Inr (x, st'))" by simp
    then consider
      (skip) st1 where "consume ''FOR'' st = Inr st1"
        "st' = skip_while (\<lambda>ty. ty \<notin> set [''ID'', ''END'']) st1"
    | (body) st1 st2 st3 st4 st5 st6 st7 se ee sn where
        "consume ''FOR'' st = Inr st1" "consume ''ID'' st1 = Inr st2"
        "consume ''ASSIGN'' st2 = Inr st3" "expression st3 = Inr (se, st4)"
        "consume ''TO'' st4 = Inr st5" "expression st5 = Inr (ee, st6)"
        "statement_list_loop n [] st6 = Some (Inr (sn, st7))" "consume ''END'' st7 = Inr st'"
      by (auto simp: for_loop.simps [of n st]
          split: sum.splits option.splits if_splits prod.splits)
    then have "remaining st' < remaining st"
    proof cases
      case skip
      have "remaining st' \<le> remaining st1"
        unfolding skip(2) by (rule remaining_skip_while)
      with consume_less [OF skip(1) cur] show ?thesis by simp
    next
      case body
      have 1: "remaining st1 < remaining st" using consume_less [OF body(1) cur] .
      have 2: "remaining st2 \<le> remaining st1" using consume_le [OF body(2)] .
      have 3: "remaining st3 \<le> remaining st2" using consume_le [OF body(3)] .
      have 4: "remaining st4 < remaining st3" using expression_less [OF body(4)] .
      have 5: "remaining st5 \<le> remaining st4" using consume_le [OF body(5)] .
      have 6: "remaining st6 < remaining st5" using expression_less [OF body(6)] .
      from 1 2 3 4 5 6 n have "remaining st6 < n" by simp
      from IH [OF this] body(7) have 7: "remaining st7 \<le> remaining st6"
        by (simp add: ok_le_def)
      have 8: "remaining st' \<le> remaining st7" using consume_le [OF body(8)] .
      from 1 2 3 4 5 6 7 8 show ?thesis by simp
    qed
    with ret show ?thesis by (simp add: ok_less_def)
  qed
qed

text \<open>Outside panic mode a statement returns with fewer tokens left, provided a \<^verbatim>\<open>FOR\<close>
  loop at the same position does.\<close>

lemma statement_ok:
  assumes fl: "ok_less st (for_loop n st)"
    and cur: "current_token st = Some t" and np: "\<not> panic_mode st"
  shows "ok_less st (statement n st)"
proof -
  consider (is_print) "ttype t = ''PRINT''"
    | (is_decl) "ttype t \<noteq> ''PRINT''" "ttype t \<in> set [''INTEGER'', ''REAL'', ''STRING'']"
    | (is_assign) "ttype t \<noteq> ''PRINT''" "ttype t \<notin> set [''INTEGER'', ''REAL'', ''STRING'']"
        "ttype t = ''ID''"
    | (is_for) "ttype t \<noteq> ''PRINT''" "ttype t \<notin> set [''INTEGER'', ''REAL'', ''STRING'']"
        "ttype t \<noteq> ''ID''" "ttype t = ''FOR''"
    | (is_other) "ttype t \<noteq> ''PRINT''" "ttype t \<notin> set [''INTEGER'', ''REAL'', ''STRING'']"
        "ttype t \<noteq> ''ID''" "ttype t \<noteq> ''FOR''"
    by blast
  then show ?thesis
  proof cases
    case is_print
    show ?thesis
    proof (cases "consume ''PRINT'' st")
      case (Inl e)
      with cur np is_print show ?thesis by (simp add: statement.simps [of n st] ok_less_def)
    next
      case c1: (Inr st1)
      have 1: "remaining st1 < remaining st" using consume_less [OF c1] cur by simp
      show ?thesis
      proof (cases "consume ''STRING_LITERAL'' st1")
        case (Inl e)
        with cur np is_print c1 show ?thesis
          by (simp add: statement.simps [of n st] ok_less_def Let_def)
      next
        case c2: (Inr st2)
        from consume_le [OF c2] 1 have "remaining st2 < remaining st" by simp
        with cur np is_print c1 c2 show ?thesis
          by (simp add: statement.simps [of n st] ok_less_def Let_def)
      qed
    qed
  next
    case is_decl
    show ?thesis
    proof (cases "var_declaration st")
      case (Inl e)
      with cur np is_decl show ?thesis by (simp add: statement.simps [of n st] ok_less_def)
    next
      case (Inr p)
      obtain nd st1 where p: "p = (nd, st1)" by (cases p)
      from var_declaration_less Inr p have "remaining st1 < remaining st" by blast
      with cur np is_decl Inr p show ?thesis by (simp add: statement.simps [of n st] ok_less_def)
    qed
  next
    case is_assign
    show ?thesis
    proof (cases "assignment st")
      case (Inl e)
      with cur np is_assign show ?thesis by (simp add: statement.simps [of n st] ok_less_def)
    next
      case (Inr p)
      obtain nd st1 where p: "p = (nd, st1)" by (cases p)
      from Inr p have "assignment st = Inr (nd, st1)" by simp
      from assignment_less [OF this cur np is_assign(3)] have "remaining st1 < remaining st" .
      with cur np is_assign Inr p show ?thesis by (simp add: statement.simps [of n st] ok_less_def)
    qed
  next
    case is_for
    from fl cur np is_for show ?thesis
      by (auto simp: statement.simps [of n st] ok_less_def split: option.splits sum.splits)
  next
    case is_other
    with cur np show ?thesis by (simp add: statement.simps [of n st] ok_less_def)
  qed
qed

lemma statement_list_loop_Suc_ok:
  assumes IH1: "\<And>kids st'. remaining st' < n \<Longrightarrow> ok_le st' (statement_list_loop n kids st')"
    and IH2: "\<And>st' t. remaining st' \<le> n \<Longrightarrow> current_token st' = Some t \<Longrightarrow>
                 \<not> panic_mode st' \<Longrightarrow> ok_less st' (statement n st')"
    and n: "remaining st < Suc n"
  shows "ok_le st (statement_list_loop (Suc n) kids st)"
proof (cases "\<exists>t. current_token st = Some t \<and> \<not> panic_mode st \<and> ttype t \<in> set statement_starts")
  case False
  then show ?thesis by (auto simp: ok_le_def split: option.splits)
next
  case True
  then obtain t where t: "current_token st = Some t" "\<not> panic_mode st"
    "ttype t \<in> set statement_starts" by blast
  from n have "remaining st \<le> n" by simp
  from IH2 [OF this t(1) t(2)] have s: "ok_less st (statement n st)" .
  show ?thesis
  proof (cases "statement n st")
    case None
    with s show ?thesis by (simp add: ok_less_def)
  next
    case (Some r)
    show ?thesis
    proof (cases r)
      case (Inl e)
      with Some t show ?thesis by (simp add: ok_le_def)
    next
      case (Inr p)
      obtain nd st1 where p: "p = (nd, st1)" by (cases p)
      from s Some Inr p have 1: "remaining st1 < remaining st" by (simp add: ok_less_def)
      with n have "remaining st1 < n" by simp
      from IH1 [OF this, of "kids @ [nd]"] have
        "ok_le st1 (statement_list_loop n (kids @ [nd]) st1)" .
      with 1 have "ok_le st (statement_list_loop n (kids @ [nd]) st1)"
        by (auto simp: ok_le_def split: option.splits sum.splits)
      with Some Inr p t show ?thesis by simp
    qed
  qed
qed

text \<open>With a bound above the number of tokens left the statement list returns; with a
  bound not below it, so do a statement and a \<^verbatim>\<open>FOR\<close> loop.\<close>

lemma productions_return:
  "(\<forall>kids st. remaining st < n \<longrightarrow> ok_le st (statement_list_loop n kids st))
   \<and> (\<forall>st t. remaining st \<le> n \<longrightarrow> current_token st = Some t \<longrightarrow> \<not> panic_mode st
         \<longrightarrow> ok_less st (statement n st))
   \<and> (\<forall>st. remaining st \<le> n \<longrightarrow> current_token st \<noteq> None \<longrightarrow> ok_less st (for_loop n st))"
proof (induction n)
  case 0
  have "\<And>st. current_token st \<noteq> None \<Longrightarrow> 0 < remaining st"
    by (auto simp: remaining_def)
  then show ?case by fastforce
next
  case (Suc n)
  have 1: "ok_le st (statement_list_loop (Suc n) kids st)" if "remaining st < Suc n" for kids st
    using Suc that by (intro statement_list_loop_Suc_ok) blast+
  have 3: "ok_less st (for_loop (Suc n) st)"
    if "remaining st \<le> Suc n" "current_token st \<noteq> None" for st
    using 1 that by (intro for_loop_ok) blast+
  have 2: "ok_less st (statement (Suc n) st)"
    if "remaining st \<le> Suc n" "current_token st = Some t" "\<not> panic_mode st" for st t
    using 3 [of st] that by (intro statement_ok) auto
  from 1 2 3 show ?case by blast
qed

lemma statement_list_loop_returns:
  "remaining st < n \<Longrightarrow> ok_le st (statement_list_loop n kids st)"
  using productions_return by blast

paragraph \<open>The bound does not change a result\<close>

text \<open>A result that is there with one bound is there, and the same, with every larger
  bound: \<open>None\<close> only ever means that the bound was too small.\<close>

lemma for_loop_mono:
  assumes sl: "\<And>kids st' r'. statement_list_loop n kids st' = Some r' \<Longrightarrow>
                  statement_list_loop m kids st' = Some r'"
    and r: "for_loop n st = Some r"
  shows "for_loop m st = Some r"
  using r
  by (auto simp: for_loop.simps [of n st] for_loop.simps [of m st]
      split: sum.split_asm option.split_asm prod.split_asm if_split_asm dest!: sl)

lemma statement_mono:
  assumes fl: "\<And>r'. for_loop n st = Some r' \<Longrightarrow> for_loop m st = Some r'"
    and r: "statement n st = Some r"
  shows "statement m st = Some r"
proof (cases "panic_mode st")
  case True
  with r show ?thesis by (simp add: statement.simps [of n st] statement.simps [of m st])
next
  case np: False
  show ?thesis
  proof (cases "current_token st")
    case None
    with r np show ?thesis by (simp add: statement.simps [of n st] statement.simps [of m st])
  next
    case (Some t)
    show ?thesis
    proof (cases "ttype t = ''FOR''")
      case False
      with np Some have "statement m st = statement n st"
        by (simp add: statement.simps [of n st] statement.simps [of m st]
            cong del: if_weak_cong)
      with r show ?thesis by simp
    next
      case True
      with np Some have eq: "statement k st =
          (case for_loop k st of
             None \<Rightarrow> None
           | Some (Inl e) \<Rightarrow> Some (Inl e)
           | Some (Inr ((for_loop_node, start_value, end_value), st1)) \<Rightarrow>
               Some (Inr (Node (''START : '' @ py_str start_value @ [CHR 0x0A]
                                  @ ''END : '' @ py_str end_value)
                            [for_loop_node] None, st1)))" for k
        by (simp add: statement.simps [of k st])
      from r obtain x where x: "for_loop n st = Some x"
        by (cases "for_loop n st") (simp_all add: eq [of n])
      from fl [OF x] x r show ?thesis by (simp add: eq)
    qed
  qed
qed

lemma statement_list_loop_mono_Suc:
  assumes sl: "\<And>kids st' r'. statement_list_loop n kids st' = Some r' \<Longrightarrow>
                  statement_list_loop m kids st' = Some r'"
    and s: "\<And>st' r'. statement n st' = Some r' \<Longrightarrow> statement m st' = Some r'"
    and r: "statement_list_loop (Suc n) kids st = Some r"
  shows "statement_list_loop (Suc m) kids st = Some r"
  using r
  by (auto split: sum.split_asm option.split_asm prod.split_asm if_split_asm dest!: s sl)

lemma productions_mono:
  "(\<forall>m kids st r. n \<le> m \<longrightarrow> statement_list_loop n kids st = Some r
        \<longrightarrow> statement_list_loop m kids st = Some r)
   \<and> (\<forall>m st r. n \<le> m \<longrightarrow> for_loop n st = Some r \<longrightarrow> for_loop m st = Some r)
   \<and> (\<forall>m st r. n \<le> m \<longrightarrow> statement n st = Some r \<longrightarrow> statement m st = Some r)"
proof (induction n)
  case 0
  have 1: "\<And>m kids st r. statement_list_loop 0 kids st = Some r \<Longrightarrow>
              statement_list_loop m kids st = Some r"
    by simp
  have 2: "\<And>m st r. for_loop 0 st = Some r \<Longrightarrow> for_loop m st = Some r"
    using 1 by (rule for_loop_mono)
  have 3: "\<And>m st r. statement 0 st = Some r \<Longrightarrow> statement m st = Some r"
    using 2 by (rule statement_mono)
  from 1 2 3 show ?case by blast
next
  case (Suc n)
  have 1: "statement_list_loop m kids st = Some r"
    if "Suc n \<le> m" "statement_list_loop (Suc n) kids st = Some r" for m kids st r
  proof -
    from that(1) obtain m' where m: "m = Suc m'" "n \<le> m'" by (cases m) auto
    from Suc m(2) have
      "\<And>kids st' r'. statement_list_loop n kids st' = Some r' \<Longrightarrow>
          statement_list_loop m' kids st' = Some r'"
      "\<And>st' r'. statement n st' = Some r' \<Longrightarrow> statement m' st' = Some r'"
      by blast+
    from statement_list_loop_mono_Suc [OF this that(2)] m(1) show ?thesis by simp
  qed
  have 2: "for_loop m st = Some r" if "Suc n \<le> m" "for_loop (Suc n) st = Some r" for m st r
    using that 1 for_loop_mono [of "Suc n" m st r] by blast
  have 3: "statement m st = Some r" if "Suc n \<le> m" "statement (Suc n) st = Some r" for m st r
    using that 2 statement_mono [of "Suc n" st m r] by blast
  from 1 2 3 show ?case by blast
qed

lemma program_mono:
  assumes r: "program n st = Some r" and nm: "n \<le> m"
  shows "program m st = Some r"
proof (cases "consume ''BEGIN'' st")
  case (Inl e)
  with r show ?thesis by (simp add: program_def)
next
  case (Inr st1)
  from r Inr obtain x where x: "statement_list n st1 = Some x"
    by (cases "statement_list n st1") (simp_all add: program_def)
  then have "statement_list m st1 = Some x"
    unfolding statement_list_def using productions_mono [of n] nm by blast
  with x Inr have "program m st = program n st" by (simp add: program_def)
  with r show ?thesis by simp
qed

lemma parse_mono:
  assumes r: "parse n toks = Some r" and nm: "n \<le> m"
  shows "parse m toks = Some r"
proof (cases toks)
  case Nil
  with r show ?thesis by (simp add: parse_def init_parser_def)
next
  case (Cons t ts)
  let ?st = "(init_parser toks)\<lparr>tokens_left := ts, current_token := Some t\<rparr>"
  from r Cons obtain x where x: "program n ?st = Some x"
    by (cases "program n ?st") (simp_all add: parse_def init_parser_def)
  from program_mono [OF x nm] x Cons have "parse m toks = parse n toks"
    by (simp add: parse_def init_parser_def)
  with r show ?thesis by simp
qed

paragraph \<open>The parser returns\<close>

lemma program_returns:
  assumes "remaining st \<le> n" and "current_token st \<noteq> None"
  shows "\<exists>r. program n st = Some r"
proof (cases "consume ''BEGIN'' st")
  case (Inl e)
  then show ?thesis by (simp add: program_def)
next
  case (Inr st1)
  from consume_less [OF Inr assms(2)] assms(1) have "remaining st1 < n" by simp
  from statement_list_loop_returns [OF this, of "[]"]
  obtain r where r: "statement_list_loop n [] st1 = Some r"
    by (auto simp: ok_le_def split: option.splits)
  show ?thesis
  proof (cases r)
    case (Inl e)
    with Inr r show ?thesis by (simp add: program_def statement_list_def)
  next
    case r2: (Inr p)
    obtain sn st2 where "p = (sn, st2)" by (cases p)
    with Inr r r2 show ?thesis
      by (simp add: program_def statement_list_def Let_def split: sum.splits)
  qed
qed

lemma parse_returns: "length toks \<le> n \<Longrightarrow> \<exists>r. parse n toks = Some r"
proof (cases toks)
  case Nil
  then show ?thesis by (simp add: parse_def init_parser_def)
next
  case (Cons t ts)
  assume "length toks \<le> n"
  with Cons have "remaining ((init_parser toks)\<lparr>tokens_left := ts, current_token := Some t\<rparr>) \<le> n"
    by (simp add: remaining_def init_parser_def)
  then obtain r where
    "program n ((init_parser toks)\<lparr>tokens_left := ts, current_token := Some t\<rparr>) = Some r"
    using program_returns by fastforce
  with Cons show ?thesis
    by (cases r) (auto simp: parse_def init_parser_def split: prod.splits)
qed

lemma consume_panic_returns: "panic_mode st \<Longrightarrow> \<exists>st'. consume e st = Inr st'"
  by (simp add: consume_def Let_def split: option.splits)

text \<open>
  \<^bold>\<open>C2\<close> (as amended). For every finite token sequence \<^verbatim>\<open>parse\<close> returns (with a
  tree or an exception): a bound of the number of tokens is never reached, and every
  larger bound gives the same result. Every call of
  \<^verbatim>\<open>consume\<close> in panic mode returns and leaves no more tokens than before, and strictly
  fewer whenever there is a current token; with the input exhausted there is nothing
  left to advance past. Outside panic mode every round of the loop of
  \<^verbatim>\<open>statement_list\<close> returns with strictly fewer tokens left. (The loops of
  \<^verbatim>\<open>var_declaration\<close> and \<^verbatim>\<open>assignment\<close> are the functions \<open>var_declaration_loop\<close> and
  \<open>assignment_loop\<close>, whose termination proofs show that every round leaves fewer tokens;
  the skip loops are \<open>skip_loop\<close>, which takes one token per round.)
\<close>

theorem parse_returns_and_panic_consume_advances:
  "(length toks \<le> n \<longrightarrow>
        (\<exists>r. parse n toks = Some r \<and> parse (length toks) toks = Some r))
   \<and> (panic_mode st \<longrightarrow>
        (\<exists>st'. consume expected_type st = Inr st'
           \<and> remaining st' \<le> remaining st
           \<and> (current_token st \<noteq> None \<longrightarrow> remaining st' < remaining st)))
   \<and> (remaining s \<le> n \<and> current_token s = Some t \<and> \<not> panic_mode s
        \<longrightarrow> ok_less s (statement n s))"
proof -
  have 1: "length toks \<le> n \<longrightarrow>
        (\<exists>r. parse n toks = Some r \<and> parse (length toks) toks = Some r)"
    using parse_returns [of toks "length toks"] parse_mono [of "length toks" toks _ n]
    by auto
  have 2: "panic_mode st \<longrightarrow>
        (\<exists>st'. consume expected_type st = Inr st'
           \<and> remaining st' \<le> remaining st
           \<and> (current_token st \<noteq> None \<longrightarrow> remaining st' < remaining st))"
    using consume_panic_returns [of st expected_type] consume_le consume_less by blast
  have 3: "remaining s \<le> n \<and> current_token s = Some t \<and> \<not> panic_mode s
        \<longrightarrow> ok_less s (statement n s)"
    using productions_return [of n] by blast
  from 1 2 3 show ?thesis by blast
qed

theorem parse_returns_and_panic_consume_advances_witness:
  "(\<exists>r. parse 3 [Token ''BEGIN'' ''BEGIN'' 1 1, Token ''PRINT'' ''PRINT'' 3 1,
                   Token ''ID'' ''X'' 5 1] = Some r
         \<and> parse (length [Token ''BEGIN'' ''BEGIN'' 1 1, Token ''PRINT'' ''PRINT'' 3 1,
                   Token ''ID'' ''X'' 5 1])
               [Token ''BEGIN'' ''BEGIN'' 1 1, Token ''PRINT'' ''PRINT'' 3 1,
                   Token ''ID'' ''X'' 5 1] = Some r)
   \<and> (\<exists>st'. consume ''END''
              \<lparr>tokens_left = [Token ''END'' ''END'' 7 1],
               current_token = Some (Token ''ID'' ''X'' 5 1), panic_mode = True\<rparr> = Inr st'
         \<and> remaining st'
             < remaining \<lparr>tokens_left = [Token ''END'' ''END'' 7 1],
                 current_token = Some (Token ''ID'' ''X'' 5 1), panic_mode = True\<rparr>)
   \<and> ok_less
        \<lparr>tokens_left = [Token ''ID'' ''X'' 5 1],
         current_token = Some (Token ''PRINT'' ''PRINT'' 3 1), panic_mode = False\<rparr>
        (statement 3
           \<lparr>tokens_left = [Token ''ID'' ''X'' 5 1],
            current_token = Some (Token ''PRINT'' ''PRINT'' 3 1), panic_mode = False\<rparr>)"
  using parse_returns_and_panic_consume_advances
    [of "[Token ''BEGIN'' ''BEGIN'' 1 1, Token ''PRINT'' ''PRINT'' 3 1, Token ''ID'' ''X'' 5 1]" 3
        "\<lparr>tokens_left = [Token ''END'' ''END'' 7 1],
          current_token = Some (Token ''ID'' ''X'' 5 1), panic_mode = True\<rparr>"
        "''END''"
        "\<lparr>tokens_left = [Token ''ID'' ''X'' 5 1],
          current_token = Some (Token ''PRINT'' ''PRINT'' 3 1), panic_mode = False\<rparr>"
        "Token ''PRINT'' ''PRINT'' 3 1"]
  by (auto simp: remaining_def)

text \<open>The claim as written fails where the input is exhausted: called in panic mode
  without a current token, \<^verbatim>\<open>consume\<close> returns with the parser as it was. (A parse gets
  there: after \<^verbatim>\<open>BEGIN FOR I := 1 TO 5 PRINT X\<close> the \<^verbatim>\<open>consume('STRING_LITERAL')\<close> of
  the \<^verbatim>\<open>PRINT\<close> statement meets \<^verbatim>\<open>X\<close>, enters panic mode and takes the last token, and
  \<^verbatim>\<open>for_loop\<close> then calls \<^verbatim>\<open>consume('END')\<close>.)\<close>

theorem panic_consume_at_end_of_input_stays:
  "consume ''END'' \<lparr>tokens_left = [], current_token = None, panic_mode = True\<rparr>
     = Inr \<lparr>tokens_left = [], current_token = None, panic_mode = True\<rparr>"
  by (simp add: consume_def skip_while_def next_token_def)

subsection \<open>\<^verbatim>\<open>consume\<close> in panic mode\<close>

lemma skip_loop_dropWhile:
  "skip_loop cond (Some t) ts =
     (case dropWhile (\<lambda>x. cond (ttype x)) (t # ts) of
        [] \<Rightarrow> (None, []) | m # r \<Rightarrow> (Some m, r))"
  by (induction ts arbitrary: t) auto

lemma consume_panic_not_found:
  assumes "panic_mode st" and "current_token st = Some t"
    and "\<forall>x \<in> set (t # tokens_left st). ttype x \<noteq> e"
  shows "consume e st = Inr (st\<lparr>tokens_left := [], current_token := None\<rparr>)"
proof -
  from assms(3) have "dropWhile (\<lambda>x. ttype x \<noteq> e) (t # tokens_left st) = []"
    by (simp only: dropWhile_eq_Nil_conv) 
  then have "skip_while (\<lambda>ty. ty \<noteq> e) st = st\<lparr>tokens_left := [], current_token := None\<rparr>"
    by (simp only: skip_while_def assms(2) skip_loop_dropWhile) simp
  with assms(1) show ?thesis
    by (simp add: consume_def next_token_def)
qed

lemma consume_panic_found:
  assumes "panic_mode st" and "current_token st = Some t"
    and "t # tokens_left st = pre @ m # post"
    and "\<forall>x \<in> set pre. ttype x \<noteq> e" and "ttype m = e"
  shows "consume e st =
           Inr (next_token (st\<lparr>tokens_left := post, current_token := Some m, panic_mode := False\<rparr>))"
proof -
  from assms(4,5) have "dropWhile (\<lambda>x. ttype x \<noteq> e) (pre @ m # post) = m # post"
    by (simp add: dropWhile_append3)
  with assms(3) have "dropWhile (\<lambda>x. ttype x \<noteq> e) (t # tokens_left st) = m # post"
    by simp
  then have "skip_while (\<lambda>ty. ty \<noteq> e) st = st\<lparr>tokens_left := post, current_token := Some m\<rparr>"
    by (simp only: skip_while_def assms(2) skip_loop_dropWhile) simp
  with assms(1,5) show ?thesis
    by (simp add: consume_def)
qed

text \<open>
  \<^bold>\<open>C3\<close> (as amended). Called in panic mode with a current token, \<^verbatim>\<open>consume(expected)\<close>
  skips tokens up to the first token of kind \<open>expected\<close>. If there is one, it is consumed
  as well, the token behind it becomes the current token and the mode goes back to normal.
  If there is none, the input is exhausted (no current token, no tokens left) and the
  mode stays panic: the branch for a synchronisation point that was not found does not
  reset \<^verbatim>\<open>panic_mode\<close>. Called in panic mode without a current token, it only pulls on
  the lexer and the mode stays panic as well.
\<close>

theorem consume_in_panic_mode:
  assumes "panic_mode st"
  shows "(current_token st = Some t \<and> t # tokens_left st = pre @ m # post
            \<and> (\<forall>x \<in> set pre. ttype x \<noteq> expected_type) \<and> ttype m = expected_type
          \<longrightarrow> consume expected_type st =
                Inr (next_token (st\<lparr>tokens_left := post, current_token := Some m,
                                    panic_mode := False\<rparr>)))
       \<and> (current_token st = Some t
            \<and> (\<forall>x \<in> set (t # tokens_left st). ttype x \<noteq> expected_type)
          \<longrightarrow> consume expected_type st =
                Inr (st\<lparr>tokens_left := [], current_token := None, panic_mode := True\<rparr>))
       \<and> (current_token st = None
          \<longrightarrow> consume expected_type st = Inr (next_token st) \<and> panic_mode (next_token st))"
proof -
  have e: "st\<lparr>tokens_left := [], current_token := None, panic_mode := True\<rparr>
          = st\<lparr>tokens_left := [], current_token := None\<rparr>"
    using assms by simp
  have 1: "current_token st = Some t \<and> t # tokens_left st = pre @ m # post
            \<and> (\<forall>x \<in> set pre. ttype x \<noteq> expected_type) \<and> ttype m = expected_type
          \<longrightarrow> consume expected_type st =
                Inr (next_token (st\<lparr>tokens_left := post, current_token := Some m,
                                    panic_mode := False\<rparr>))"
    using consume_panic_found [OF assms] by blast
  have 2: "current_token st = Some t
            \<and> (\<forall>x \<in> set (t # tokens_left st). ttype x \<noteq> expected_type)
          \<longrightarrow> consume expected_type st =
                Inr (st\<lparr>tokens_left := [], current_token := None, panic_mode := True\<rparr>)"
    using consume_panic_not_found [OF assms] e by metis
  have 3: "current_token st = None
          \<longrightarrow> consume expected_type st = Inr (next_token st) \<and> panic_mode (next_token st)"
    using assms
    by (auto simp: consume_def skip_while_def next_token_def split: list.splits)
  from 1 2 3 show ?thesis by blast
qed

theorem consume_in_panic_mode_witness:
  "consume ''END''
     \<lparr>tokens_left = [Token ''INT'' ''1'' 2 1, Token ''END'' ''END'' 3 1, Token ''ID'' ''Y'' 4 1],
      current_token = Some (Token ''ID'' ''X'' 1 1), panic_mode = True\<rparr>
   = Inr \<lparr>tokens_left = [], current_token = Some (Token ''ID'' ''Y'' 4 1), panic_mode = False\<rparr>
   \<and> consume ''TO''
     \<lparr>tokens_left = [Token ''INT'' ''1'' 2 1, Token ''END'' ''END'' 3 1, Token ''ID'' ''Y'' 4 1],
      current_token = Some (Token ''ID'' ''X'' 1 1), panic_mode = True\<rparr>
   = Inr \<lparr>tokens_left = [], current_token = None, panic_mode = True\<rparr>
   \<and> consume ''TO'' \<lparr>tokens_left = [], current_token = None, panic_mode = True\<rparr>
   = Inr \<lparr>tokens_left = [], current_token = None, panic_mode = True\<rparr>"
proof -
  let ?st = "\<lparr>tokens_left = [Token ''INT'' ''1'' 2 1, Token ''END'' ''END'' 3 1, Token ''ID'' ''Y'' 4 1],
      current_token = Some (Token ''ID'' ''X'' 1 1), panic_mode = True\<rparr>"
  let ?end = "\<lparr>tokens_left = [], current_token = None, panic_mode = True\<rparr>"
  have p: "panic_mode ?st" and c: "current_token ?st = Some (Token ''ID'' ''X'' 1 1)"
    and p': "panic_mode ?end" and c': "current_token ?end = None"
    by simp_all
  have a: "Token ''ID'' ''X'' 1 1 # tokens_left ?st
             = [Token ''ID'' ''X'' 1 1, Token ''INT'' ''1'' 2 1] @ Token ''END'' ''END'' 3 1
                 # [Token ''ID'' ''Y'' 4 1]
           \<and> (\<forall>x \<in> set [Token ''ID'' ''X'' 1 1, Token ''INT'' ''1'' 2 1]. ttype x \<noteq> ''END'')
           \<and> ttype (Token ''END'' ''END'' 3 1) = ''END''"
    by simp
  have b: "\<forall>x \<in> set (Token ''ID'' ''X'' 1 1 # tokens_left ?st). ttype x \<noteq> ''TO''"
    by simp
  from consume_in_panic_mode [OF p, of "Token ''ID'' ''X'' 1 1"
      "[Token ''ID'' ''X'' 1 1, Token ''INT'' ''1'' 2 1]" "Token ''END'' ''END'' 3 1"
      "[Token ''ID'' ''Y'' 4 1]" "''END''"] a c
  have 1: "consume ''END'' ?st
             = Inr (next_token (?st\<lparr>tokens_left := [Token ''ID'' ''Y'' 4 1],
                      current_token := Some (Token ''END'' ''END'' 3 1), panic_mode := False\<rparr>))"
    by blast
  from consume_in_panic_mode [OF p, of "Token ''ID'' ''X'' 1 1" _ _ _ "''TO''"] b c
  have 2: "consume ''TO'' ?st
             = Inr (?st\<lparr>tokens_left := [], current_token := None, panic_mode := True\<rparr>)"
    by blast
  from consume_in_panic_mode [OF p', of _ _ _ _ "''TO''"] c'
  have 3: "consume ''TO'' ?end = Inr (next_token ?end)"
    by blast
  from 1 2 3 show ?thesis by (simp add: next_token_def)
qed

text \<open>The claim as written says that the mode goes back to normal when the input is
  exhausted as well. It does not: here no \<^verbatim>\<open>END\<close> follows, the input is used up and the
  parser is still in panic mode.\<close>

theorem panic_mode_survives_exhausted_input:
  "consume ''END''
     \<lparr>tokens_left = [Token ''INT'' ''1'' 2 1], current_token = Some (Token ''ID'' ''X'' 1 1),
      panic_mode = True\<rparr>
   = Inr \<lparr>tokens_left = [], current_token = None, panic_mode = True\<rparr>"
  by (simp add: consume_def skip_while_def next_token_def)

section \<open>Expressions, declarations and the end of the program\<close>

subsection \<open>What \<^verbatim>\<open>expression\<close> returns\<close>

lemma term_p_node: "term_p st = Inr (nd, st') \<Longrightarrow> \<exists>t. nd = Node ''Value'' [Tok t] None"
  by (auto simp: term_p_def split: option.splits if_splits sum.splits)

text \<open>A normal return of \<^verbatim>\<open>expression\<close> is the node of its first term or the recovery
  node; the joined text is never built.\<close>

lemma expression_node:
  assumes "expression st = Inr (nd, st')"
  shows "(\<exists>t. nd = Node ''Value'' [Tok t] None) \<or> nd = Node ''ErrorRecoveryExpression'' [] None"
proof -
  from assms obtain l st1 where t: "term_p st = Inr (l, st1)"
    by (auto simp: expression_def split: sum.splits)
  from term_p_node [OF t] obtain tk where l: "l = Node ''Value'' [Tok tk] None" by blast
  from assms t have "nd = l \<or> nd = Node ''ErrorRecoveryExpression'' [] None"
    by (auto simp: expression_def split: option.splits if_splits sum.splits)
  with l show ?thesis by blast
qed

text \<open>
  \<^bold>\<open>C1\<close>. The claim is that \<^verbatim>\<open>1 + 2 * 3\<close> after an \<^verbatim>\<open>ASSIGN\<close> folds into one leaf with the
  value \<^verbatim>\<open>1 + 2 * 3\<close>. The loop of \<^verbatim>\<open>expression\<close> tests the type of the current token
  against \<^verbatim>\<open>'+'\<close>, \<^verbatim>\<open>'-'\<close>, \<^verbatim>\<open>'*'\<close>, \<^verbatim>\<open>'/'\<close>, but the lexer gives every operator the type
  \<^verbatim>\<open>OPERATOR\<close>, so the loop is not entered: \<^verbatim>\<open>expression\<close> returns the \<^verbatim>\<open>Value\<close> node of the
  token \<^verbatim>\<open>1\<close> and stops in front of the operator, and in the tree of
  \<^verbatim>\<open>BEGIN A := 1 + 2 * 3 END\<close> the assignment holds that node; the rest of the expression
  is skipped by \<^verbatim>\<open>program\<close>.
\<close>

theorem expression_stops_at_first_operator:
  "lexer ''BEGIN A := 1 + 2 * 3 END''
     = [Token ''BEGIN'' ''BEGIN'' 1 1, Token ''ID'' ''A'' 3 1, Token ''ASSIGN'' '':='' 5 1,
        Token ''INT'' ''1'' 7 1, Token ''OPERATOR'' ''+ '' 9 1, Token ''INT'' ''2'' 10 1,
        Token ''OPERATOR'' ''* '' 12 1, Token ''INT'' ''3'' 13 1, Token ''END'' ''END'' 15 1]
   \<and> expression
       \<lparr>tokens_left = [Token ''OPERATOR'' ''+ '' 9 1, Token ''INT'' ''2'' 10 1,
                       Token ''OPERATOR'' ''* '' 12 1, Token ''INT'' ''3'' 13 1,
                       Token ''END'' ''END'' 15 1],
        current_token = Some (Token ''INT'' ''1'' 7 1), panic_mode = False\<rparr>
     = Inr (Node ''Value'' [Tok (Token ''INT'' ''1'' 7 1)] None,
            \<lparr>tokens_left = [Token ''INT'' ''2'' 10 1, Token ''OPERATOR'' ''* '' 12 1,
                            Token ''INT'' ''3'' 13 1, Token ''END'' ''END'' 15 1],
             current_token = Some (Token ''OPERATOR'' ''+ '' 9 1), panic_mode = False\<rparr>)
   \<and> parse 9
       [Token ''BEGIN'' ''BEGIN'' 1 1, Token ''ID'' ''A'' 3 1, Token ''ASSIGN'' '':='' 5 1,
        Token ''INT'' ''1'' 7 1, Token ''OPERATOR'' ''+ '' 9 1, Token ''INT'' ''2'' 10 1,
        Token ''OPERATOR'' ''* '' 12 1, Token ''INT'' ''3'' 13 1, Token ''END'' ''END'' 15 1]
     = Some (Inr (Node ''Program''
         [Node ''Statements''
            [Node ''Assignment''
               [Node ''Assignments''
                  [Node ''Assignment''
                     [Node ''Variable'' [] (Some ''A''),
                      Node ''Value'' [Tok (Token ''INT'' ''1'' 7 1)] None,
                      Node ''Value'' [Tok (Token ''ID'' ''A'' 3 1)] None] None] None] None]
            None] None))"
proof -
  have 1: "lexer ''BEGIN A := 1 + 2 * 3 END''
     = [Token ''BEGIN'' ''BEGIN'' 1 1, Token ''ID'' ''A'' 3 1, Token ''ASSIGN'' '':='' 5 1,
        Token ''INT'' ''1'' 7 1, Token ''OPERATOR'' ''+ '' 9 1, Token ''INT'' ''2'' 10 1,
        Token ''OPERATOR'' ''* '' 12 1, Token ''INT'' ''3'' 13 1, Token ''END'' ''END'' 15 1]"
    by code_simp
  have 2: "expression
       \<lparr>tokens_left = [Token ''OPERATOR'' ''+ '' 9 1, Token ''INT'' ''2'' 10 1,
                       Token ''OPERATOR'' ''* '' 12 1, Token ''INT'' ''3'' 13 1,
                       Token ''END'' ''END'' 15 1],
        current_token = Some (Token ''INT'' ''1'' 7 1), panic_mode = False\<rparr>
     = Inr (Node ''Value'' [Tok (Token ''INT'' ''1'' 7 1)] None,
            \<lparr>tokens_left = [Token ''INT'' ''2'' 10 1, Token ''OPERATOR'' ''* '' 12 1,
                            Token ''INT'' ''3'' 13 1, Token ''END'' ''END'' 15 1],
             current_token = Some (Token ''OPERATOR'' ''+ '' 9 1), panic_mode = False\<rparr>)"
    by code_simp
  have 3: "parse 9
       [Token ''BEGIN'' ''BEGIN'' 1 1, Token ''ID'' ''A'' 3 1, Token ''ASSIGN'' '':='' 5 1,
        Token ''INT'' ''1'' 7 1, Token ''OPERATOR'' ''+ '' 9 1, Token ''INT'' ''2'' 10 1,
        Token ''OPERATOR'' ''* '' 12 1, Token ''INT'' ''3'' 13 1, Token ''END'' ''END'' 15 1]
     = Some (Inr (Node ''Program''
         [Node ''Statements''
            [Node ''Assignment''
               [Node ''Assignments''
                  [Node ''Assignment''
                     [Node ''Variable'' [] (Some ''A''),
                      Node ''Value'' [Tok (Token ''INT'' ''1'' 7 1)] None,
                      Node ''Value'' [Tok (Token ''ID'' ''A'' 3 1)] None] None] None] None]
            None] None))"
    by code_simp
  from 1 2 3 show ?thesis by blast
qed

subsection \<open>Tokens behind the top-level \<^verbatim>\<open>END\<close>\<close>

lemma skip_while_stop:
  assumes "current_token st = Some t" and "\<not> cond (ttype t)"
  shows "skip_while cond st = st"
proof -
  from assms have "skip_loop cond (current_token st) (tokens_left st) = (Some t, tokens_left st)"
    by (cases "tokens_left st") simp_all
  with assms(1) show ?thesis by (simp add: skip_while_def)
qed

lemma consume_matching:
  assumes "current_token st = Some t" and "ttype t = e"
  shows "consume e st = Inr (next_token (st\<lparr>panic_mode := False\<rparr>))"
proof (cases "panic_mode st")
  case True
  from assms have "skip_while (\<lambda>ty. ty \<noteq> e) st = st" by (simp add: skip_while_stop)
  with True assms show ?thesis by (simp add: consume_def)
next
  case False
  then have e: "st\<lparr>panic_mode := False\<rparr> = st" by simp
  from False assms show ?thesis by (simp add: consume_def e)
qed

text \<open>Once \<^verbatim>\<open>consume('BEGIN')\<close> and the statement list have returned, \<^verbatim>\<open>program\<close>
  returns the tree on every path: with an \<^verbatim>\<open>END\<close> to consume, with a nested \<^verbatim>\<open>BEGIN\<close>
  in front, or at the end of the input. Nothing that is left in the input makes it raise.\<close>

lemma program_returns_tree_after_statements:
  assumes "consume ''BEGIN'' st = Inr st1"
    and "statement_list n st1 = Some (Inr (statements_node, st2))"
  shows "\<exists>st4. program n st = Some (Inr (Node ''Program'' [statements_node] None, st4))"
proof -
  let ?st3 = "skip_while (\<lambda>ty. ty \<notin> set [''END'', ''BEGIN'']) st2"
  show ?thesis
  proof (cases "\<exists>e. current_token ?st3 = Some e \<and> ttype e = ''END''")
    case True
    then obtain e where e: "current_token ?st3 = Some e" "ttype e = ''END''" by blast
    from consume_matching [OF e] assms e show ?thesis
      by (simp add: program_def Let_def)
  next
    case False
    with assms show ?thesis
      by (auto simp: program_def Let_def split: option.splits)
  qed
qed

text \<open>
  \<^bold>\<open>C4\<close> (as amended). Whenever \<^verbatim>\<open>program\<close> finds an \<^verbatim>\<open>END\<close> token to consume, that
  is, whenever the current token is \<^verbatim>\<open>END\<close> after the statement list has returned and
  \<^verbatim>\<open>program\<close> has skipped to the next \<^verbatim>\<open>END\<close> or \<^verbatim>\<open>BEGIN\<close> (in panic mode or not),
  \<^verbatim>\<open>program\<close> consumes that token and returns the tree, and \<^verbatim>\<open>parse\<close> returns it to the
  caller. Whatever follows the \<^verbatim>\<open>END\<close> is not looked at: the first token behind it, if
  there is one, is left as the current token, the others stay in the lexer, and no
  exception is raised.
\<close>

theorem tokens_after_END_are_left_unexamined:
  assumes "consume ''BEGIN'' ((init_parser (t # ts))\<lparr>tokens_left := ts, current_token := Some t\<rparr>)
             = Inr st1"
    and "statement_list n st1 = Some (Inr (statements_node, st2))"
    and "current_token (skip_while (\<lambda>ty. ty \<notin> set [''END'', ''BEGIN'']) st2) = Some e"
    and "ttype e = ''END''"
  shows "program n ((init_parser (t # ts))\<lparr>tokens_left := ts, current_token := Some t\<rparr>)
           = Some (Inr (Node ''Program'' [statements_node] None,
                        next_token ((skip_while (\<lambda>ty. ty \<notin> set [''END'', ''BEGIN'']) st2)
                                      \<lparr>panic_mode := False\<rparr>)))
       \<and> parse n (t # ts) = Some (Inr (Node ''Program'' [statements_node] None))
       \<and> tokens_left (next_token ((skip_while (\<lambda>ty. ty \<notin> set [''END'', ''BEGIN'']) st2)
                                      \<lparr>panic_mode := False\<rparr>))
           = drop 1 (tokens_left (skip_while (\<lambda>ty. ty \<notin> set [''END'', ''BEGIN'']) st2))"
proof -
  let ?st3 = "skip_while (\<lambda>ty. ty \<notin> set [''END'', ''BEGIN'']) st2"
  have c: "consume ''END'' ?st3 = Inr (next_token (?st3\<lparr>panic_mode := False\<rparr>))"
    using assms(3,4) by (rule consume_matching)
  have 1: "program n ((init_parser (t # ts))\<lparr>tokens_left := ts, current_token := Some t\<rparr>)
           = Some (Inr (Node ''Program'' [statements_node] None,
                        next_token (?st3\<lparr>panic_mode := False\<rparr>)))"
    using assms c by (simp add: program_def Let_def)
  then have 2: "parse n (t # ts) = Some (Inr (Node ''Program'' [statements_node] None))"
    by (simp add: parse_def init_parser_def)
  have 3: "tokens_left (next_token (?st3\<lparr>panic_mode := False\<rparr>)) = drop 1 (tokens_left ?st3)"
    by (simp add: next_token_def drop_Suc split: list.splits)
  from 1 2 3 show ?thesis by blast
qed

text \<open>An instance in which \<^verbatim>\<open>program\<close> has to skip to the \<^verbatim>\<open>END\<close>: in
  \<^verbatim>\<open>BEGIN A := 1 + 2 END X\<close> the statement list stops in front of the operator.\<close>

theorem tokens_after_END_are_left_unexamined_witness:
  "parse 8 [Token ''BEGIN'' ''BEGIN'' 1 1, Token ''ID'' ''A'' 3 1, Token ''ASSIGN'' '':='' 5 1,
            Token ''INT'' ''1'' 7 1, Token ''OPERATOR'' ''+ '' 9 1, Token ''INT'' ''2'' 10 1,
            Token ''END'' ''END'' 12 1, Token ''ID'' ''X'' 14 1]
     = Some (Inr (Node ''Program''
         [Node ''Statements''
            [Node ''Assignment''
               [Node ''Assignments''
                  [Node ''Assignment''
                     [Node ''Variable'' [] (Some ''A''),
                      Node ''Value'' [Tok (Token ''INT'' ''1'' 7 1)] None,
                      Node ''Value'' [Tok (Token ''ID'' ''A'' 3 1)] None] None] None] None]
            None] None))
   \<and> program 8
       \<lparr>tokens_left = [Token ''ID'' ''A'' 3 1, Token ''ASSIGN'' '':='' 5 1,
            Token ''INT'' ''1'' 7 1, Token ''OPERATOR'' ''+ '' 9 1, Token ''INT'' ''2'' 10 1,
            Token ''END'' ''END'' 12 1, Token ''ID'' ''X'' 14 1],
        current_token = Some (Token ''BEGIN'' ''BEGIN'' 1 1), panic_mode = False\<rparr>
     = Some (Inr (Node ''Program''
         [Node ''Statements''
            [Node ''Assignment''
               [Node ''Assignments''
                  [Node ''Assignment''
                     [Node ''Variable'' [] (Some ''A''),
                      Node ''Value'' [Tok (Token ''INT'' ''1'' 7 1)] None,
                      Node ''Value'' [Tok (Token ''ID'' ''A'' 3 1)] None] None] None] None]
            None] None,
          \<lparr>tokens_left = [], current_token = Some (Token ''ID'' ''X'' 14 1),
           panic_mode = False\<rparr>))"
proof -
  let ?ts = "[Token ''ID'' ''A'' 3 1, Token ''ASSIGN'' '':='' 5 1,
              Token ''INT'' ''1'' 7 1, Token ''OPERATOR'' ''+ '' 9 1, Token ''INT'' ''2'' 10 1,
              Token ''END'' ''END'' 12 1, Token ''ID'' ''X'' 14 1]"
  let ?st2 = "\<lparr>tokens_left = [Token ''INT'' ''2'' 10 1, Token ''END'' ''END'' 12 1,
                               Token ''ID'' ''X'' 14 1],
               current_token = Some (Token ''OPERATOR'' ''+ '' 9 1), panic_mode = False\<rparr>"
  have a: "consume ''BEGIN''
             ((init_parser (Token ''BEGIN'' ''BEGIN'' 1 1 # ?ts))
                \<lparr>tokens_left := ?ts, current_token := Some (Token ''BEGIN'' ''BEGIN'' 1 1)\<rparr>)
           = Inr \<lparr>tokens_left = [Token ''ASSIGN'' '':='' 5 1,
                     Token ''INT'' ''1'' 7 1, Token ''OPERATOR'' ''+ '' 9 1,
                     Token ''INT'' ''2'' 10 1, Token ''END'' ''END'' 12 1,
                     Token ''ID'' ''X'' 14 1],
                  current_token = Some (Token ''ID'' ''A'' 3 1), panic_mode = False\<rparr>"
    by code_simp
  have b: "statement_list 8
             \<lparr>tokens_left = [Token ''ASSIGN'' '':='' 5 1,
                     Token ''INT'' ''1'' 7 1, Token ''OPERATOR'' ''+ '' 9 1,
                     Token ''INT'' ''2'' 10 1, Token ''END'' ''END'' 12 1,
                     Token ''ID'' ''X'' 14 1],
              current_token = Some (Token ''ID'' ''A'' 3 1), panic_mode = False\<rparr>
           = Some (Inr (Node ''Statements''
               [Node ''Assignment''
                  [Node ''Assignments''
                     [Node ''Assignment''
                        [Node ''Variable'' [] (Some ''A''),
                         Node ''Value'' [Tok (Token ''INT'' ''1'' 7 1)] None,
                         Node ''Value'' [Tok (Token ''ID'' ''A'' 3 1)] None] None] None] None]
               None, ?st2))"
    by code_simp
  have sk: "skip_while (\<lambda>ty. ty \<notin> set [''END'', ''BEGIN'']) ?st2
              = \<lparr>tokens_left = [Token ''ID'' ''X'' 14 1],
                 current_token = Some (Token ''END'' ''END'' 12 1), panic_mode = False\<rparr>"
    by (simp add: skip_while_def)
  have c: "current_token (skip_while (\<lambda>ty. ty \<notin> set [''END'', ''BEGIN'']) ?st2)
             = Some (Token ''END'' ''END'' 12 1)"
    by (simp only: sk) simp
  have d: "ttype (Token ''END'' ''END'' 12 1) = ''END''" by simp
  from tokens_after_END_are_left_unexamined [OF a b c d] sk show ?thesis
    by (simp add: init_parser_def next_token_def)
qed

text \<open>The claim as written says that tokens behind the top-level \<^verbatim>\<open>END\<close> are a fatal
  condition. For \<^verbatim>\<open>BEGIN END PRINT\<close> the parser returns the tree of the empty program;
  \<^verbatim>\<open>program\<close> ends with \<^verbatim>\<open>PRINT\<close> as the current token, which nothing looks at.\<close>

theorem trailing_tokens_are_not_fatal:
  "program 3 \<lparr>tokens_left = [Token ''END'' ''END'' 3 1, Token ''PRINT'' ''PRINT'' 5 1],
              current_token = Some (Token ''BEGIN'' ''BEGIN'' 1 1), panic_mode = False\<rparr>
     = Some (Inr (Node ''Program'' [Node ''Statements'' [] None] None,
                  \<lparr>tokens_left = [], current_token = Some (Token ''PRINT'' ''PRINT'' 5 1),
                   panic_mode = False\<rparr>))
   \<and> parse 3 [Token ''BEGIN'' ''BEGIN'' 1 1, Token ''END'' ''END'' 3 1,
               Token ''PRINT'' ''PRINT'' 5 1]
     = Some (Inr (Node ''Program'' [Node ''Statements'' [] None] None))
   \<and> lexer ''BEGIN END PRINT''
     = [Token ''BEGIN'' ''BEGIN'' 1 1, Token ''END'' ''END'' 3 1, Token ''PRINT'' ''PRINT'' 5 1]"
proof -
  have 1: "program 3 \<lparr>tokens_left = [Token ''END'' ''END'' 3 1, Token ''PRINT'' ''PRINT'' 5 1],
              current_token = Some (Token ''BEGIN'' ''BEGIN'' 1 1), panic_mode = False\<rparr>
     = Some (Inr (Node ''Program'' [Node ''Statements'' [] None] None,
                  \<lparr>tokens_left = [], current_token = Some (Token ''PRINT'' ''PRINT'' 5 1),
                   panic_mode = False\<rparr>))"
    by code_simp
  have 2: "parse 3 [Token ''BEGIN'' ''BEGIN'' 1 1, Token ''END'' ''END'' 3 1,
               Token ''PRINT'' ''PRINT'' 5 1]
     = Some (Inr (Node ''Program'' [Node ''Statements'' [] None] None))"
    by code_simp
  have 3: "lexer ''BEGIN END PRINT''
     = [Token ''BEGIN'' ''BEGIN'' 1 1, Token ''END'' ''END'' 3 1, Token ''PRINT'' ''PRINT'' 5 1]"
    by code_simp
  from 1 2 3 show ?thesis by blast
qed

subsection \<open>Declarations\<close>

text \<open>The tokens of \<^verbatim>\<open>, name\<close> repeated.\<close>

fun comma_names :: "(token \<times> token) list \<Rightarrow> token list" where
  "comma_names [] = []"
| "comma_names ((c, i) # others) = c # i # comma_names others"

text \<open>The loop of \<^verbatim>\<open>var_declaration\<close>, started behind a name that has just been
  consumed: \<open>x # xs\<close> are the tokens of the further names and what follows them.\<close>

lemma var_declaration_loop_names:
  assumes "\<forall>(c, i) \<in> set others. ttype c = ''COMMA'' \<and> ttype i = ''ID''"
    and "ttype f \<noteq> ''COMMA''"
    and "comma_names others @ f # rest = x # xs"
  shows "var_declaration_loop var_type var_nodes
           \<lparr>tokens_left = xs, current_token = Some x, panic_mode = False\<rparr>
         = Inr (var_nodes @ map (\<lambda>(c, i). Node var_type [] (Some (tvalue i))) others,
                \<lparr>tokens_left = rest, current_token = Some f, panic_mode = False\<rparr>)"
  using assms
proof (induction others arbitrary: var_nodes x xs)
  case Nil
  then show ?case
    by (subst var_declaration_loop.simps) simp
next
  case (Cons p others)
  obtain c i where p: "p = (c, i)" by (cases p)
  from Cons.prems(1) p have ci: "ttype c = ''COMMA''" "ttype i = ''ID''" by simp_all
  from Cons.prems(3) p have x: "x = c" and xs: "xs = i # comma_names others @ f # rest" by simp_all
  obtain y ys where y: "comma_names others @ f # rest = y # ys"
    by (cases "comma_names others @ f # rest") simp_all
  have c1: "consume ''COMMA'' \<lparr>tokens_left = xs, current_token = Some x, panic_mode = False\<rparr>
              = Inr \<lparr>tokens_left = y # ys, current_token = Some i, panic_mode = False\<rparr>"
    using x xs y ci by (simp add: consume_def next_token_def)
  have c2: "consume ''ID'' \<lparr>tokens_left = y # ys, current_token = Some i, panic_mode = False\<rparr>
              = Inr \<lparr>tokens_left = ys, current_token = Some y, panic_mode = False\<rparr>"
    using ci by (simp add: consume_def next_token_def)
  from Cons.prems(1) have others: "\<forall>(c, i) \<in> set others. ttype c = ''COMMA'' \<and> ttype i = ''ID''"
    by simp
  have "var_declaration_loop var_type (var_nodes @ [Node var_type [] (Some (tvalue i))])
           \<lparr>tokens_left = ys, current_token = Some y, panic_mode = False\<rparr>
         = Inr ((var_nodes @ [Node var_type [] (Some (tvalue i))])
                  @ map (\<lambda>(c, i). Node var_type [] (Some (tvalue i))) others,
                \<lparr>tokens_left = rest, current_token = Some f, panic_mode = False\<rparr>)"
    by (rule Cons.IH [OF others Cons.prems(2) y])
  with c1 c2 x ci p show ?case
    by (subst var_declaration_loop.simps) simp
qed

lemma var_declaration_names:
  assumes "ttype i0 = ''ID''"
    and "\<forall>(c, i) \<in> set others. ttype c = ''COMMA'' \<and> ttype i = ''ID''"
    and "ttype f \<noteq> ''COMMA''"
  shows "var_declaration
           \<lparr>tokens_left = i0 # comma_names others @ f # rest, current_token = Some ty,
            panic_mode = False\<rparr>
         = Inr (Node ''VarDeclaration''
                  (map (\<lambda>i. Node (ttype ty) [] (Some (tvalue i))) (i0 # map snd others)) None,
                \<lparr>tokens_left = rest, current_token = Some f, panic_mode = False\<rparr>)"
proof -
  obtain y ys where y: "comma_names others @ f # rest = y # ys"
    by (cases "comma_names others @ f # rest") simp_all
  have c1: "consume (ttype ty)
              \<lparr>tokens_left = i0 # comma_names others @ f # rest, current_token = Some ty,
               panic_mode = False\<rparr>
            = Inr \<lparr>tokens_left = y # ys, current_token = Some i0, panic_mode = False\<rparr>"
    using y by (simp add: consume_def next_token_def)
  have c2: "consume ''ID'' \<lparr>tokens_left = y # ys, current_token = Some i0, panic_mode = False\<rparr>
              = Inr \<lparr>tokens_left = ys, current_token = Some y, panic_mode = False\<rparr>"
    using assms(1) by (simp add: consume_def next_token_def)
  have m: "map (\<lambda>(c, i). Node (ttype ty) [] (Some (tvalue i))) others
             = map (\<lambda>i. Node (ttype ty) [] (Some (tvalue i))) (map snd others)"
    by (induction others) auto
  from var_declaration_loop_names [OF assms(2,3) y,
      of "ttype ty" "[Node (ttype ty) [] (Some (tvalue i0))]"] c1 c2 m
  show ?thesis by (simp add: var_declaration_def Let_def)
qed

text \<open>
  \<^bold>\<open>C9\<close> (as amended). A declaration of one type with names separated by commas, followed
  by a token that is not a comma, makes \<^verbatim>\<open>statement\<close> return a \<^verbatim>\<open>VarDeclaration\<close> node
  with exactly one child: the \<^verbatim>\<open>VarDeclaration\<close> node that \<^verbatim>\<open>var_declaration\<close> builds. The
  children of that inner node are exactly one leaf per declared name, in order, each
  with the declared type as its type and the name as its value.
\<close>

theorem declaration_is_wrapped_twice:
  assumes "ttype ty \<in> set [''INTEGER'', ''REAL'', ''STRING'']"
    and "ttype i0 = ''ID''"
    and "\<forall>(c, i) \<in> set others. ttype c = ''COMMA'' \<and> ttype i = ''ID''"
    and "ttype f \<noteq> ''COMMA''"
  shows "statement n
           \<lparr>tokens_left = i0 # comma_names others @ f # rest, current_token = Some ty,
            panic_mode = False\<rparr>
         = Some (Inr (Node ''VarDeclaration''
                        [Node ''VarDeclaration''
                           (map (\<lambda>i. Node (ttype ty) [] (Some (tvalue i))) (i0 # map snd others))
                           None] None,
                      \<lparr>tokens_left = rest, current_token = Some f, panic_mode = False\<rparr>))"
proof -
  from assms(1) have "ttype ty \<noteq> ''PRINT''" by auto
  with assms(1) var_declaration_names [OF assms(2-4), of rest ty] show ?thesis
    by (simp add: statement.simps
        [of n "\<lparr>tokens_left = i0 # comma_names others @ f # rest, current_token = Some ty,
                 panic_mode = False\<rparr>"])
qed

theorem declaration_is_wrapped_twice_witness:
  "statement 0
     \<lparr>tokens_left = [Token ''ID'' ''A'' 5 1, Token ''COMMA'' '','' 6 1, Token ''ID'' ''B'' 8 1,
                     Token ''COMMA'' '','' 9 1, Token ''ID'' ''C'' 11 1, Token ''END'' ''END'' 13 1],
      current_token = Some (Token ''REAL'' ''REAL'' 3 1), panic_mode = False\<rparr>
   = Some (Inr (Node ''VarDeclaration''
                  [Node ''VarDeclaration''
                     [Node ''REAL'' [] (Some ''A''), Node ''REAL'' [] (Some ''B''),
                      Node ''REAL'' [] (Some ''C'')] None] None,
                \<lparr>tokens_left = [], current_token = Some (Token ''END'' ''END'' 13 1),
                 panic_mode = False\<rparr>))"
  using declaration_is_wrapped_twice
    [of "Token ''REAL'' ''REAL'' 3 1" "Token ''ID'' ''A'' 5 1"
        "[(Token ''COMMA'' '','' 6 1, Token ''ID'' ''B'' 8 1),
          (Token ''COMMA'' '','' 9 1, Token ''ID'' ''C'' 11 1)]"
        "Token ''END'' ''END'' 13 1" 0 "[]"]
  by simp

text \<open>The claim as written speaks of one \<^verbatim>\<open>VarDeclaration\<close> node whose children are the
  leaves. In the tree of \<^verbatim>\<open>BEGIN INTEGER A, B END\<close> the \<^verbatim>\<open>VarDeclaration\<close> node below
  \<^verbatim>\<open>Statements\<close> has a single child, which is a second \<^verbatim>\<open>VarDeclaration\<close> node; the two
  leaves are the children of that second node.\<close>

theorem declaration_tree_has_two_VarDeclaration_nodes:
  "lexer ''BEGIN INTEGER A, B END''
     = [Token ''BEGIN'' ''BEGIN'' 1 1, Token ''INTEGER'' ''INTEGER'' 3 1, Token ''ID'' ''A'' 5 1,
        Token ''COMMA'' '','' 6 1, Token ''ID'' ''B'' 8 1, Token ''END'' ''END'' 10 1]
   \<and> parse 6
       [Token ''BEGIN'' ''BEGIN'' 1 1, Token ''INTEGER'' ''INTEGER'' 3 1, Token ''ID'' ''A'' 5 1,
        Token ''COMMA'' '','' 6 1, Token ''ID'' ''B'' 8 1, Token ''END'' ''END'' 10 1]
     = Some (Inr (Node ''Program''
         [Node ''Statements''
            [Node ''VarDeclaration''
               [Node ''VarDeclaration''
                  [Node ''INTEGER'' [] (Some ''A''), Node ''INTEGER'' [] (Some ''B'')] None]
               None] None] None))"
proof -
  have 1: "lexer ''BEGIN INTEGER A, B END''
     = [Token ''BEGIN'' ''BEGIN'' 1 1, Token ''INTEGER'' ''INTEGER'' 3 1, Token ''ID'' ''A'' 5 1,
        Token ''COMMA'' '','' 6 1, Token ''ID'' ''B'' 8 1, Token ''END'' ''END'' 10 1]"
    by code_simp
  have 2: "parse 6
       [Token ''BEGIN'' ''BEGIN'' 1 1, Token ''INTEGER'' ''INTEGER'' 3 1, Token ''ID'' ''A'' 5 1,
        Token ''COMMA'' '','' 6 1, Token ''ID'' ''B'' 8 1, Token ''END'' ''END'' 10 1]
     = Some (Inr (Node ''Program''
         [Node ''Statements''
            [Node ''VarDeclaration''
               [Node ''VarDeclaration''
                  [Node ''INTEGER'' [] (Some ''A''), Node ''INTEGER'' [] (Some ''B'')] None]
               None] None] None))"
    by code_simp
  from 1 2 show ?thesis by blast
qed

end
